theory Spec2Isabelle
  imports Main "HOL-Library.Word"
begin

section \<open>Platform types and contract constants\<close>

text \<open>
  The contract \<^verbatim>\<open>src/contract/oracle.cpp\<close> works on unsigned 64-bit integers
  throughout: \<^verbatim>\<open>uint64_t\<close> and \<^verbatim>\<open>account_name\<close> (an alias of it). They are
  modelled as \<open>64 word\<close>, so that \<open>+\<close> and \<open>-\<close> wrap around as in C++.
\<close>

type_synonym uint64_t = "64 word"
type_synonym account_name = "64 word"

text \<open>\<^verbatim>\<open>N(eostitanprod)\<close>: the base-32 encoding of the controlling account's name.\<close>

definition titan_account :: account_name where
  "titan_account = 6138854226386610320"

definition datapoints_count :: uint64_t where
  "datapoints_count = 21"

definition val_min :: uint64_t where
  "val_min = 100"

definition val_max :: uint64_t where
  "val_max = 100000000"

definition one_minute :: uint64_t where
  "one_minute = 1000000 * 55"

section \<open>Table rows\<close>

text \<open>
  The three structs of the contract. The fields of \<^verbatim>\<open>eosusd\<close> are \<^verbatim>\<open>id\<close>,
  \<^verbatim>\<open>owner\<close>, \<^verbatim>\<open>value\<close>, \<^verbatim>\<open>average\<close>, \<^verbatim>\<open>timestamp\<close>; those of
  \<^verbatim>\<open>eosusdstats\<close> are \<^verbatim>\<open>owner\<close>, \<^verbatim>\<open>timestamp\<close>, \<^verbatim>\<open>count\<close>; \<^verbatim>\<open>oracles\<close>
  has the single field \<^verbatim>\<open>owner\<close>. The field names carry a prefix here because the structs
  share them. The primary keys are \<open>usd_id\<close>, \<open>stats_owner\<close> and \<open>oracle_owner\<close>.
\<close>

record eosusd =
  usd_id :: uint64_t
  usd_owner :: account_name
  usd_value :: uint64_t
  usd_average :: uint64_t
  usd_timestamp :: uint64_t

record eosusdstats =
  stats_owner :: account_name
  stats_timestamp :: uint64_t
  stats_count :: uint64_t

record oracles =
  oracle_owner :: account_name

text \<open>
  The contract's storage: one table per \<^verbatim>\<open>multi_index\<close> typedef. A table is the list of
  its rows in the order of the primary index, that is, by ascending primary key:
  \<^verbatim>\<open>begin()\<close> is the head of the list and \<^verbatim>\<open>end()\<close> is past its last element.
\<close>

record tables =
  usdtable :: "eosusd list"
  statstable :: "eosusdstats list"
  oraclestable :: "oracles list"

section \<open>The host: errors, transaction context, multi-index tables\<close>

text \<open>
  Every way an action can abort. \<open>MissingAuth\<close> is a failed \<^verbatim>\<open>require_auth\<close>;
  \<open>OutOfRange\<close>, \<open>NotQualified\<close> and \<open>RateLimited\<close> are the three
  \<^verbatim>\<open>eosio_assert\<close> calls of the contract; \<open>DuplicateKey\<close> is the host refusing to
  store a second row under a primary key that the table already holds;
  \<open>BadIterator\<close> is stepping a table iterator past \<^verbatim>\<open>end()\<close> or reading through
  \<^verbatim>\<open>end()\<close>.
\<close>

datatype error = MissingAuth | OutOfRange | NotQualified | RateLimited
  | DuplicateKey | BadIterator

text \<open>
  What the host supplies to an action: the accounts whose authority the action carries,
  the active producer schedule, and \<^verbatim>\<open>current_time()\<close> in microseconds (constant during
  one action).
\<close>

record host =
  authorization :: "account_name list"
  active_producers :: "account_name list"
  current_time :: uint64_t

text \<open>
  An action either completes with the new tables or aborts. The aborting case keeps the
  tables as they were at the moment of the abort, so that one can state which writes had
  already happened; the host then throws them away (\<open>transaction\<close> below).
\<close>

type_synonym outcome = "(error \<times> tables) + tables"

definition require_auth :: "host \<Rightarrow> account_name \<Rightarrow> tables \<Rightarrow> outcome" where
  "require_auth h name st =
     (if name \<in> set (authorization h) then Inr st else Inl (MissingAuth, st))"

definition eosio_assert :: "bool \<Rightarrow> error \<Rightarrow> tables \<Rightarrow> outcome" where
  "eosio_assert test msg st = (if test then Inr st else Inl (msg, st))"

definition and_then :: "outcome \<Rightarrow> (tables \<Rightarrow> outcome) \<Rightarrow> outcome" where
  "and_then r f = (case r of Inl e \<Rightarrow> Inl e | Inr st \<Rightarrow> f st)"

definition transaction :: "(tables \<Rightarrow> outcome) \<Rightarrow> tables \<Rightarrow> error option \<times> tables" where
  "transaction action st =
     (case action st of Inl (e, _) \<Rightarrow> (Some e, st) | Inr st' \<Rightarrow> (None, st'))"

text \<open>\<^verbatim>\<open>find\<close>: the row with primary key \<open>k\<close>, if there is one.\<close>

fun find_row :: "('r \<Rightarrow> uint64_t) \<Rightarrow> uint64_t \<Rightarrow> 'r list \<Rightarrow> 'r option" where
  "find_row pk k [] = None"
| "find_row pk k (x # xs) = (if pk x = k then Some x else find_row pk k xs)"

text \<open>
  \<^verbatim>\<open>emplace\<close>: the new row takes its place in primary-key order. Primary keys are unique:
  the host aborts the action (\<open>None\<close> here) when the key is already in the table.
\<close>

fun emplace_row :: "('r \<Rightarrow> uint64_t) \<Rightarrow> 'r \<Rightarrow> 'r list \<Rightarrow> 'r list option" where
  "emplace_row pk r [] = Some [r]"
| "emplace_row pk r (x # xs) =
     (if pk r < pk x then Some (r # x # xs)
      else if pk r = pk x then None
      else map_option ((#) x) (emplace_row pk r xs))"

text \<open>\<^verbatim>\<open>modify\<close>: update the row with primary key \<open>k\<close> in place.\<close>

definition modify_row :: "('r \<Rightarrow> uint64_t) \<Rightarrow> uint64_t \<Rightarrow> ('r \<Rightarrow> 'r) \<Rightarrow> 'r list \<Rightarrow> 'r list" where
  "modify_row pk k f t = map (\<lambda>x. if pk x = k then f x else x) t"

text \<open>
  The loop \<^verbatim>\<open>while (t.begin() != t.end()) { itr = t.end(); itr--; t.erase(itr); }\<close>
  of \<^verbatim>\<open>setoracles\<close> and \<^verbatim>\<open>clear\<close>: erase the last row until none is left.
\<close>

function erase_all :: "'r list \<Rightarrow> 'r list" where
  "erase_all t = (if t \<noteq> [] then erase_all (butlast t) else t)"
  by pat_completeness auto
termination
  by (relation "measure length") auto

declare erase_all.simps [simp del]

text \<open>
  An iterator is the part of the index from the row it points to onwards; \<open>[]\<close> is
  \<^verbatim>\<open>end()\<close>. \<^verbatim>\<open>itr++\<close> at \<^verbatim>\<open>end()\<close> fails.
\<close>

definition incr :: "'r list \<Rightarrow> 'r list option" where
  "incr itr = (case itr of [] \<Rightarrow> None | _ # rest \<Rightarrow> Some rest)"

text \<open>
  \<^verbatim>\<open>get_active_producers(producers, size)\<close>: the host copies the active schedule into the
  caller's buffer, as much of it as fits, and leaves the rest of the buffer as it was.
\<close>

definition get_active_producers :: "host \<Rightarrow> account_name list \<Rightarrow> account_name list" where
  "get_active_producers h buffer =
     (let n = min (length buffer) (length (active_producers h))
      in take n (active_producers h) @ drop n buffer)"

section \<open>check_oracle\<close>

text \<open>The \<^verbatim>\<open>while\<close> loop over the \<^verbatim>\<open>oracles\<close> table.\<close>

fun oracles_loop :: "oracles list \<Rightarrow> account_name \<Rightarrow> bool" where
  "oracles_loop [] owner = False"
| "oracles_loop (x # itr) owner =
     (if oracle_owner x = owner then True else oracles_loop itr owner)"

text \<open>The \<^verbatim>\<open>for\<close> loop over the 21 slots of the \<^verbatim>\<open>producers\<close> array.\<close>

function producers_loop :: "account_name list \<Rightarrow> nat \<Rightarrow> account_name \<Rightarrow> bool" where
  "producers_loop producers i owner =
     (if i < 21
      then (if producers ! i = owner then True else producers_loop producers (i + 1) owner)
      else False)"
  by pat_completeness auto
termination
  by (relation "measure (\<lambda>(producers, i, owner). 21 - i)") auto

declare producers_loop.simps [simp del]

definition check_oracle :: "host \<Rightarrow> tables \<Rightarrow> account_name \<Rightarrow> bool" where
  "check_oracle h st owner =
     (if oracles_loop (oraclestable st) owner then True
      else let producers = get_active_producers h (replicate 21 0)
           in producers_loop producers 0 owner)"

section \<open>check_last_push\<close>

definition check_last_push :: "host \<Rightarrow> account_name \<Rightarrow> tables \<Rightarrow> outcome" where
  "check_last_push h owner st =
     (let store = statstable st in
      case find_row stats_owner owner store of
        Some last_push \<Rightarrow>
          let ctime = current_time h in
          and_then
            (eosio_assert (stats_timestamp last_push + one_minute \<le> ctime) RateLimited st)
            (\<lambda>st. Inr (st\<lparr>statstable :=
               modify_row stats_owner owner
                 (\<lambda>s. s\<lparr>stats_timestamp := ctime, stats_count := stats_count s + 1\<rparr>)
                 store\<rparr>))
      | None \<Rightarrow>
          (case emplace_row stats_owner
                  \<lparr>stats_owner = owner, stats_timestamp = current_time h, stats_count = 0\<rparr>
                  store of
             None \<Rightarrow> Inl (DuplicateKey, st)
           | Some store' \<Rightarrow> Inr (st\<lparr>statstable := store'\<rparr>)))"

section \<open>update_eosusd_oracle\<close>

text \<open>
  The loop \<^verbatim>\<open>for (int i = 0; i<9; i++) { itr++; avg += itr->value; }\<close>; the first
  argument counts the iterations that remain.
\<close>

fun next_values :: "nat \<Rightarrow> eosusd list \<Rightarrow> uint64_t \<Rightarrow> uint64_t option" where
  "next_values 0 itr avg = Some avg"
| "next_values (Suc n) itr avg =
     (case incr itr of
        None \<Rightarrow> None
      | Some itr' \<Rightarrow>
          (case itr' of
             [] \<Rightarrow> None
           | x # _ \<Rightarrow> next_values n itr' (avg + usd_value x)))"

text \<open>
  The index \<^verbatim>\<open>N(value)\<close> orders the rows by \<^verbatim>\<open>value\<close>, rows of equal value by primary
  key: a stable sort of the primary index. The five \<^verbatim>\<open>itr++\<close> before the loop are the
  five \<open>incr\<close> here.
\<close>

definition trimmed_sum :: "eosusd list \<Rightarrow> uint64_t option" where
  "trimmed_sum usdstore =
     (let value_sorted = sort_key usd_value usdstore;
          itr = value_sorted
      in Option.bind (incr itr) (\<lambda>itr.
         Option.bind (incr itr) (\<lambda>itr.
         Option.bind (incr itr) (\<lambda>itr.
         Option.bind (incr itr) (\<lambda>itr.
         Option.bind (incr itr) (\<lambda>itr.
         next_values 9 itr 0))))))"

text \<open>
  \<^verbatim>\<open>size\<close> is the number of rows. In the branch that evicts, the new row is stored without
  an \<^verbatim>\<open>average\<close> (the placeholder \<open>0\<close> here) and gets it from \<^verbatim>\<open>modify\<close> right
  after; nothing reads the field in between.
\<close>

definition update_eosusd_oracle :: "host \<Rightarrow> account_name \<Rightarrow> uint64_t \<Rightarrow> tables \<Rightarrow> outcome" where
  "update_eosusd_oracle h owner val st =
     (let usdstore = usdtable st; size = length usdstore in
      case usdstore of
        latest # _ \<Rightarrow>
          let primary_key = usd_id latest - 1 in
          if size + 1 > unat datapoints_count then
            let erased = butlast usdstore in
            (case emplace_row usd_id
                    \<lparr>usd_id = primary_key, usd_owner = owner, usd_value = val,
                     usd_average = 0, usd_timestamp = current_time h\<rparr> erased of
               None \<Rightarrow> Inl (DuplicateKey, st\<lparr>usdtable := erased\<rparr>)
             | Some inserted \<Rightarrow>
                 (case trimmed_sum inserted of
                    None \<Rightarrow> Inl (BadIterator, st\<lparr>usdtable := inserted\<rparr>)
                  | Some avg \<Rightarrow>
                      Inr (st\<lparr>usdtable :=
                        modify_row usd_id primary_key
                          (\<lambda>s. s\<lparr>usd_average := avg div 9\<rparr>) inserted\<rparr>)))
          else
            let avg = val in
            (case emplace_row usd_id
                    \<lparr>usd_id = primary_key, usd_owner = owner, usd_value = val,
                     usd_average = avg, usd_timestamp = current_time h\<rparr> usdstore of
               None \<Rightarrow> Inl (DuplicateKey, st)
             | Some inserted \<Rightarrow> Inr (st\<lparr>usdtable := inserted\<rparr>))
      | [] \<Rightarrow>
          let primary_key = (- 1 :: uint64_t); avg = val in
          (case emplace_row usd_id
                  \<lparr>usd_id = primary_key, usd_owner = owner, usd_value = val,
                   usd_average = avg, usd_timestamp = current_time h\<rparr> usdstore of
             None \<Rightarrow> Inl (DuplicateKey, st)
           | Some inserted \<Rightarrow> Inr (st\<lparr>usdtable := inserted\<rparr>)))"

section \<open>The actions\<close>

text \<open>The action \<^verbatim>\<open>write\<close> (the name alone is a keyword of Isabelle).\<close>

definition write_action :: "host \<Rightarrow> account_name \<Rightarrow> uint64_t \<Rightarrow> tables \<Rightarrow> outcome" where
  "write_action h owner val st =
     and_then (require_auth h owner st) (\<lambda>st.
     and_then (eosio_assert (val \<ge> val_min \<and> val \<le> val_max) OutOfRange st) (\<lambda>st.
     and_then (eosio_assert (check_oracle h st owner) NotQualified st) (\<lambda>st.
     and_then (check_last_push h owner st) (\<lambda>st.
     update_eosusd_oracle h owner val st))))"

text \<open>The \<^verbatim>\<open>for\<close> loop of \<^verbatim>\<open>setoracles\<close> over \<^verbatim>\<open>oracleslist\<close>.\<close>

fun emplace_oracles :: "account_name list \<Rightarrow> tables \<Rightarrow> outcome" where
  "emplace_oracles [] st = Inr st"
| "emplace_oracles (oracle # rest) st =
     (case emplace_row oracle_owner \<lparr>oracle_owner = oracle\<rparr> (oraclestable st) of
        None \<Rightarrow> Inl (DuplicateKey, st)
      | Some t \<Rightarrow> emplace_oracles rest (st\<lparr>oraclestable := t\<rparr>))"

definition setoracles :: "host \<Rightarrow> account_name list \<Rightarrow> tables \<Rightarrow> outcome" where
  "setoracles h oracleslist st =
     and_then (require_auth h titan_account st) (\<lambda>st.
     emplace_oracles oracleslist (st\<lparr>oraclestable := erase_all (oraclestable st)\<rparr>))"

definition clear :: "host \<Rightarrow> tables \<Rightarrow> outcome" where
  "clear h st =
     and_then (require_auth h titan_account st) (\<lambda>st.
     let st = st\<lparr>statstable := erase_all (statstable st)\<rparr>;
         st = st\<lparr>usdtable := erase_all (usdtable st)\<rparr>;
         st = st\<lparr>oraclestable := erase_all (oraclestable st)\<rparr>
     in Inr st)"

section \<open>Sequences of submissions, ranks\<close>

text \<open>
  A sequence of \<^verbatim>\<open>write\<close> actions, each with the context the host gives it, all of them
  accepted: the sequence stops at the first action that aborts.
\<close>

fun writes :: "(host \<times> account_name \<times> uint64_t) list \<Rightarrow> tables \<Rightarrow> outcome" where
  "writes [] st = Inr st"
| "writes ((h, owner, val) # rest) st = and_then (write_action h owner val st) (writes rest)"

text \<open>
  The values of a window in ascending order, as natural numbers: the value ranked
  \<open>k\<close>-th is at position \<open>k - 1\<close>. \<open>rank_sum lo hi\<close> is the sum of the values ranked
  \<open>lo\<close>-th to \<open>hi\<close>-th.
\<close>

definition value_ranking :: "eosusd list \<Rightarrow> nat list" where
  "value_ranking t = sort (map (\<lambda>x. unat (usd_value x)) t)"

definition rank_sum :: "nat \<Rightarrow> nat \<Rightarrow> eosusd list \<Rightarrow> nat" where
  "rank_sum lo hi t = sum_list (take (Suc hi - lo) (drop (lo - 1) (value_ranking t)))"

text \<open>
  What holds of the window in every state that accepted submissions lead to from an
  empty window: the keys are in strictly ascending order, there are at most 21 rows, and
  while there are fewer than 21 the keys are the last ones before \<open>2^64\<close>.
\<close>

definition window_inv :: "eosusd list \<Rightarrow> bool" where
  "window_inv t \<longleftrightarrow>
     sorted_wrt (<) (map usd_id t) \<and> length t \<le> 21
     \<and> (length t < 21 \<longrightarrow> (\<forall>x\<in>set t. 2 ^ 64 \<le> unat (usd_id x) + length t))"

text \<open>
  Data for the examples. \<open>sample_writes\<close> are 21 submissions of the reporter 5, one a
  minute; \<open>window_from base\<close> is a full window of 21 rows with the keys \<open>base\<close> to
  \<open>base + 20\<close> and the values and times of \<open>sample_writes\<close>, newest first.
  \<open>window_from (2^64 - 21)\<close> is the window after these 21 submissions, and
  \<open>window_from 0\<close> has the keys that a window has after \<open>2^64\<close> accepted submissions.
\<close>

definition sample_host :: "uint64_t \<Rightarrow> host" where
  "sample_host now = \<lparr>authorization = [5], active_producers = [5], current_time = now\<rparr>"

definition sample_writes :: "(host \<times> account_name \<times> uint64_t) list" where
  "sample_writes =
    [(sample_host 60000000, 5, 5320),
     (sample_host 120000000, 5, 5040),
     (sample_host 180000000, 5, 5240),
     (sample_host 240000000, 5, 5190),
     (sample_host 300000000, 5, 5070),
     (sample_host 360000000, 5, 5280),
     (sample_host 420000000, 5, 5130),
     (sample_host 480000000, 5, 5000),
     (sample_host 540000000, 5, 5350),
     (sample_host 600000000, 5, 5150),
     (sample_host 660000000, 5, 5210),
     (sample_host 720000000, 5, 5090),
     (sample_host 780000000, 5, 5260),
     (sample_host 840000000, 5, 5020),
     (sample_host 900000000, 5, 5400),
     (sample_host 960000000, 5, 5170),
     (sample_host 1020000000, 5, 5050),
     (sample_host 1080000000, 5, 4980),
     (sample_host 1140000000, 5, 5300),
     (sample_host 1200000000, 5, 5110),
     (sample_host 1260000000, 5, 5230)]"

definition window_from :: "uint64_t \<Rightarrow> eosusd list" where
  "window_from base =
    [\<lparr>usd_id = base, usd_owner = 5, usd_value = 5230, usd_average = 5230, usd_timestamp = 1260000000\<rparr>,
     \<lparr>usd_id = base + 1, usd_owner = 5, usd_value = 5110, usd_average = 5110, usd_timestamp = 1200000000\<rparr>,
     \<lparr>usd_id = base + 2, usd_owner = 5, usd_value = 5300, usd_average = 5300, usd_timestamp = 1140000000\<rparr>,
     \<lparr>usd_id = base + 3, usd_owner = 5, usd_value = 4980, usd_average = 4980, usd_timestamp = 1080000000\<rparr>,
     \<lparr>usd_id = base + 4, usd_owner = 5, usd_value = 5050, usd_average = 5050, usd_timestamp = 1020000000\<rparr>,
     \<lparr>usd_id = base + 5, usd_owner = 5, usd_value = 5170, usd_average = 5170, usd_timestamp = 960000000\<rparr>,
     \<lparr>usd_id = base + 6, usd_owner = 5, usd_value = 5400, usd_average = 5400, usd_timestamp = 900000000\<rparr>,
     \<lparr>usd_id = base + 7, usd_owner = 5, usd_value = 5020, usd_average = 5020, usd_timestamp = 840000000\<rparr>,
     \<lparr>usd_id = base + 8, usd_owner = 5, usd_value = 5260, usd_average = 5260, usd_timestamp = 780000000\<rparr>,
     \<lparr>usd_id = base + 9, usd_owner = 5, usd_value = 5090, usd_average = 5090, usd_timestamp = 720000000\<rparr>,
     \<lparr>usd_id = base + 10, usd_owner = 5, usd_value = 5210, usd_average = 5210, usd_timestamp = 660000000\<rparr>,
     \<lparr>usd_id = base + 11, usd_owner = 5, usd_value = 5150, usd_average = 5150, usd_timestamp = 600000000\<rparr>,
     \<lparr>usd_id = base + 12, usd_owner = 5, usd_value = 5350, usd_average = 5350, usd_timestamp = 540000000\<rparr>,
     \<lparr>usd_id = base + 13, usd_owner = 5, usd_value = 5000, usd_average = 5000, usd_timestamp = 480000000\<rparr>,
     \<lparr>usd_id = base + 14, usd_owner = 5, usd_value = 5130, usd_average = 5130, usd_timestamp = 420000000\<rparr>,
     \<lparr>usd_id = base + 15, usd_owner = 5, usd_value = 5280, usd_average = 5280, usd_timestamp = 360000000\<rparr>,
     \<lparr>usd_id = base + 16, usd_owner = 5, usd_value = 5070, usd_average = 5070, usd_timestamp = 300000000\<rparr>,
     \<lparr>usd_id = base + 17, usd_owner = 5, usd_value = 5190, usd_average = 5190, usd_timestamp = 240000000\<rparr>,
     \<lparr>usd_id = base + 18, usd_owner = 5, usd_value = 5240, usd_average = 5240, usd_timestamp = 180000000\<rparr>,
     \<lparr>usd_id = base + 19, usd_owner = 5, usd_value = 5040, usd_average = 5040, usd_timestamp = 120000000\<rparr>,
     \<lparr>usd_id = base + 20, usd_owner = 5, usd_value = 5320, usd_average = 5320, usd_timestamp = 60000000\<rparr>]"

text \<open>The tables after \<open>sample_writes\<close>, and an empty storage.\<close>

definition sample_tables :: tables where
  "sample_tables =
     \<lparr>usdtable = window_from 18446744073709551595,
      statstable = [\<lparr>stats_owner = 5, stats_timestamp = 1260000000, stats_count = 20\<rparr>],
      oraclestable = []\<rparr>"

definition no_tables :: tables where
  "no_tables = \<lparr>usdtable = [], statstable = [], oraclestable = []\<rparr>"

section \<open>Facts about tables\<close>

lemma find_row_None_iff: "find_row pk k t = None \<longleftrightarrow> k \<notin> pk ` set t"
  by (induction t) auto

lemma emplace_row_fresh: "pk r \<notin> pk ` set t \<Longrightarrow> \<exists>t'. emplace_row pk r t = Some t'"
  by (induction t) auto

lemma set_emplace_row: "emplace_row pk r t = Some t' \<Longrightarrow> set t' = insert r (set t)"
  by (induction t arbitrary: t') (auto split: if_splits)

lemma length_emplace_row: "emplace_row pk r t = Some t' \<Longrightarrow> length t' = Suc (length t)"
  by (induction t arbitrary: t') (auto split: if_splits)

lemma sorted_emplace_row:
  "sorted_wrt (<) (map pk t) \<Longrightarrow> emplace_row pk r t = Some t' \<Longrightarrow> sorted_wrt (<) (map pk t')"
proof (induction t arbitrary: t')
  case Nil
  then show ?case by auto
next
  case (Cons x xs)
  show ?case
  proof (cases "pk r < pk x")
    case True
    with Cons.prems show ?thesis by (fastforce dest: less_trans)
  next
    case False
    with Cons.prems obtain t'' where t'': "emplace_row pk r xs = Some t''" "t' = x # t''" "pk x < pk r"
      by (auto split: if_splits)
    from Cons.prems have "sorted_wrt (<) (map pk xs)" by simp
    from Cons.IH [OF this t''(1)] have "sorted_wrt (<) (map pk t'')" .
    moreover have "\<forall>y\<in>set t''. pk x < pk y"
      using set_emplace_row [OF t''(1)] Cons.prems(1) t''(3) by auto
    ultimately show ?thesis using t''(2) by simp
  qed
qed

lemma find_row_emplace_row:
  "emplace_row pk r t = Some t' \<Longrightarrow> find_row pk k t' = (if k = pk r then Some r else find_row pk k t)"
  by (induction t arbitrary: t') (auto split: if_splits)

lemma emplace_row_front:
  "\<forall>x\<in>set t. pk r < pk x \<Longrightarrow> emplace_row pk r t = Some (r # t)"
  by (cases t) auto

lemma find_row_modify_row:
  "(\<And>x. pk (f x) = pk x) \<Longrightarrow>
   find_row pk k (modify_row pk k' f t) = (if k = k' then map_option f (find_row pk k t) else find_row pk k t)"
  by (induction t) (auto simp: modify_row_def)

lemma erase_all_empty: "erase_all t = []"
  by (induction t rule: erase_all.induct) (metis erase_all.simps)

lemma emplace_row_Some_fresh:
  "sorted_wrt (<) (map pk t) \<Longrightarrow> emplace_row pk r t = Some t' \<Longrightarrow> pk r \<notin> pk ` set t"
  by (induction t arbitrary: t') (auto split: if_splits)

section \<open>The trimmed sum\<close>

lemma next_values_sum:
  "n < length itr \<Longrightarrow>
   next_values n itr avg = Some (avg + sum_list (map usd_value (take n (tl itr))))"
proof (induction n arbitrary: itr avg)
  case 0
  then show ?case by simp
next
  case (Suc n)
  then obtain x y rest where itr: "itr = x # y # rest"
    by (cases itr; cases "tl itr") auto
  with Suc.prems have "n < length (y # rest)" by simp
  from Suc.IH [OF this] itr show ?case
    by (simp add: incr_def add.assoc)
qed

lemma incr_Some: "itr \<noteq> [] \<Longrightarrow> incr itr = Some (tl itr)"
  by (cases itr) (auto simp: incr_def)

lemma incr_drop: "k < length xs \<Longrightarrow> incr (drop k xs) = Some (drop (Suc k) xs)"
  using incr_Some [of "drop k xs"] by (simp add: drop_Suc tl_drop)

lemma trimmed_sum_eq:
  assumes "15 \<le> length usdstore"
  shows "trimmed_sum usdstore
         = Some (sum_list (map usd_value (take 9 (drop 6 (sort_key usd_value usdstore)))))"
proof -
  let ?vs = "sort_key usd_value usdstore"
  have len: "15 \<le> length ?vs" using assms by simp
  have i: "incr (drop k ?vs) = Some (drop (Suc k) ?vs)" if "k < 15" for k
    using that len by (intro incr_drop) simp
  have five: "drop (Suc (Suc (Suc (Suc (Suc 0))))) ?vs = drop 5 ?vs"
    by (simp add: eval_nat_numeral)
  have "9 < length (drop 5 ?vs)" using len by simp
  from next_values_sum [OF this, of 0]
  have n: "next_values 9 (drop 5 ?vs) 0
      = Some (sum_list (map usd_value (take 9 (drop 6 ?vs))))"
    by (simp add: tl_drop drop_Suc [symmetric])
  have "trimmed_sum usdstore = next_values 9 (drop 5 ?vs) 0"
    using i [of 0] i [of "Suc 0"] i [of "Suc (Suc 0)"] i [of "Suc (Suc (Suc 0))"]
      i [of "Suc (Suc (Suc (Suc 0)))"] five
    by (simp add: trimmed_sum_def Let_def)
  with n show ?thesis by simp
qed


section \<open>The three cases of update_eosusd_oracle\<close>

lemma modify_row_absent: "k \<notin> pk ` set t \<Longrightarrow> modify_row pk k f t = t"
  by (induction t) (auto simp: modify_row_def)

lemma emplace_row_modify_row:
  "emplace_row pk r t = Some ins \<Longrightarrow> pk (f r) = pk r \<Longrightarrow> pk r \<notin> pk ` set t \<Longrightarrow>
   emplace_row pk (f r) t = Some (modify_row pk (pk r) f ins)"
proof (induction t arbitrary: ins)
  case Nil
  then show ?case by (auto simp: modify_row_def)
next
  case (Cons x xs)
  show ?case
  proof (cases "pk r < pk x")
    case True
    with Cons.prems have "ins = r # x # xs" by simp
    moreover have "modify_row pk (pk r) f (x # xs) = x # xs"
      using Cons.prems(3) by (intro modify_row_absent)
    ultimately show ?thesis using True Cons.prems(2)
      by (simp add: modify_row_def)
  next
    case False
    with Cons.prems obtain ins' where i: "emplace_row pk r xs = Some ins'" "ins = x # ins'"
      "pk r \<noteq> pk x"
      by (auto split: if_splits)
    from Cons.prems(3) have "pk r \<notin> pk ` set xs" by simp
    from Cons.IH [OF i(1) Cons.prems(2) this] False i Cons.prems(2) show ?thesis
      by (auto simp: modify_row_def)
  qed
qed

lemma butlast_less_last:
  fixes pk :: "'r \<Rightarrow> uint64_t"
  assumes "sorted_wrt (<) (map pk t)" and "y \<in> set (butlast t)"
  shows "pk y < pk (last t)"
proof -
  from assms(2) have "t \<noteq> []" by auto
  then have "t = butlast t @ [last t]" by simp
  then have "sorted_wrt (<) (map pk (butlast t @ [last t]))" using assms(1) by simp
  with assms(2) show ?thesis by (simp add: sorted_wrt_append)
qed

lemma hd_least:
  fixes pk :: "'r \<Rightarrow> uint64_t"
  assumes "sorted_wrt (<) (map pk t)" and "y \<in> set t"
  shows "pk (hd t) \<le> pk y"
  using assms by (cases t) auto

lemma last_greatest:
  fixes pk :: "'r \<Rightarrow> uint64_t"
  assumes "sorted_wrt (<) (map pk t)" and "y \<in> set t"
  shows "pk y \<le> pk (last t)"
proof -
  from assms(2) have "t \<noteq> []" by auto
  then have "t = butlast t @ [last t]" by simp
  with assms(2) have "y \<in> set (butlast t) \<or> y = last t"
    by (metis Un_iff insert_iff list.set(2) set_append empty_iff list.set(1))
  with butlast_less_last [OF assms(1), of y] show ?thesis by (auto simp: less_imp_le)
qed

lemma word_pred_less: "(x :: uint64_t) \<noteq> 0 \<Longrightarrow> x - 1 < x"
  by (simp add: word_less_nat_alt unat_minus_one unat_gt_0)

lemma new_key_fresh:
  assumes "sorted_wrt (<) (map usd_id t)" and "t \<noteq> []"
  shows "usd_id (hd t) - 1 \<notin> usd_id ` set (butlast t)"
proof
  assume "usd_id (hd t) - 1 \<in> usd_id ` set (butlast t)"
  then obtain y where y: "y \<in> set (butlast t)" "usd_id y = usd_id (hd t) - 1" by auto
  then have yt: "y \<in> set t" by (meson in_set_butlastD)
  show False
  proof (cases "usd_id (hd t) = 0")
    case True
    with y have "usd_id y = - 1" by simp
    moreover have "usd_id y < usd_id (last t)" using butlast_less_last [OF assms(1) y(1)] .
    ultimately show False by simp
  next
    case False
    then have "usd_id (hd t) - 1 < usd_id (hd t)" by (rule word_pred_less)
    moreover have "usd_id (hd t) \<le> usd_id y" using hd_least [OF assms(1) yt] .
    ultimately show False using y(2) by simp
  qed
qed


lemma update_eosusd_oracle_empty:
  assumes "usdtable st = []"
  shows "update_eosusd_oracle h owner val st
         = Inr (st\<lparr>usdtable := [\<lparr>usd_id = - 1, usd_owner = owner, usd_value = val,
                                   usd_average = val, usd_timestamp = current_time h\<rparr>]\<rparr>)"
  using assms by (simp add: update_eosusd_oracle_def)

lemma update_eosusd_oracle_filling:
  assumes "usdtable st = t" and "t \<noteq> []" and "length t < 21"
      and "\<forall>x\<in>set t. usd_id (hd t) - 1 < usd_id x"
  shows "update_eosusd_oracle h owner val st
         = Inr (st\<lparr>usdtable := \<lparr>usd_id = usd_id (hd t) - 1, usd_owner = owner, usd_value = val,
                                  usd_average = val, usd_timestamp = current_time h\<rparr> # t\<rparr>)"
proof -
  let ?new = "\<lparr>usd_id = usd_id (hd t) - 1, usd_owner = owner, usd_value = val,
               usd_average = val, usd_timestamp = current_time h\<rparr>"
  from assms(2) obtain latest rest where t: "t = latest # rest" by (cases t) auto
  have "\<forall>x\<in>set t. usd_id ?new < usd_id x" using assms(4) by simp
  then have "emplace_row usd_id ?new t = Some (?new # t)" by (rule emplace_row_front)
  with assms(1,3) t show ?thesis
    by (simp add: update_eosusd_oracle_def datapoints_count_def Let_def)
qed

lemma map_insort_key: "map f (insort_key f x ys) = insort (f x) (map f ys)"
  by (induction ys) auto

lemma map_sort_key: "map f (sort_key f xs) = sort (map f xs)"
  by (induction xs) (simp_all add: map_insort_key)

lemma map_value_sort_key: "map usd_value (sort_key usd_value t) = sort (map usd_value t)"
  by (rule map_sort_key)

lemma update_eosusd_oracle_full:
  assumes "usdtable st = t" and "21 \<le> length t" and "sorted_wrt (<) (map usd_id t)"
  shows "\<exists>t' a. update_eosusd_oracle h owner val st = Inr (st\<lparr>usdtable := t'\<rparr>)
           \<and> emplace_row usd_id
                \<lparr>usd_id = usd_id (hd t) - 1, usd_owner = owner, usd_value = val,
                 usd_average = a div 9, usd_timestamp = current_time h\<rparr> (butlast t) = Some t'
           \<and> a = sum_list (take 9 (drop 6 (sort (map usd_value t'))))"
proof -
  let ?k = "usd_id (hd t) - 1"
  let ?new = "\<lparr>usd_id = ?k, usd_owner = owner, usd_value = val,
               usd_average = 0, usd_timestamp = current_time h\<rparr>"
  from assms(2) obtain latest rest where t: "t = latest # rest" by (cases t) auto
  then have ne: "t \<noteq> []" by simp
  have fresh: "usd_id ?new \<notin> usd_id ` set (butlast t)"
    using new_key_fresh [OF assms(3) ne] by simp
  from emplace_row_fresh [OF this] obtain ins where
    ins: "emplace_row usd_id ?new (butlast t) = Some ins" by blast
  have len: "length ins = length t"
    using length_emplace_row [OF ins] ne by simp
  then have "15 \<le> length ins" using assms(2) by simp
  from trimmed_sum_eq [OF this]
  have ts: "trimmed_sum ins = Some (sum_list (take 9 (drop 6 (sort (map usd_value ins)))))"
    by (simp add: map_value_sort_key [symmetric] take_map drop_map)
  let ?a = "sum_list (take 9 (drop 6 (sort (map usd_value ins))))"
  let ?f = "\<lambda>s. s\<lparr>usd_average := ?a div 9\<rparr>"
  let ?t' = "modify_row usd_id ?k ?f ins"
  have "emplace_row usd_id (?f ?new) (butlast t) = Some (modify_row usd_id (usd_id ?new) ?f ins)"
    using ins _ fresh by (rule emplace_row_modify_row) simp
  then have e: "emplace_row usd_id
      \<lparr>usd_id = ?k, usd_owner = owner, usd_value = val,
       usd_average = ?a div 9, usd_timestamp = current_time h\<rparr> (butlast t) = Some ?t'"
    by simp
  have "map usd_value ?t' = map usd_value ins"
    by (simp add: modify_row_def)
  then have a: "?a = sum_list (take 9 (drop 6 (sort (map usd_value ?t'))))" by simp
  have "update_eosusd_oracle h owner val st = Inr (st\<lparr>usdtable := ?t'\<rparr>)"
    using assms(1,2) t ins ts
    by (simp add: update_eosusd_oracle_def datapoints_count_def Let_def)
  with e a show ?thesis by blast
qed


section \<open>The window invariant\<close>

lemma unat_pred: "(x :: uint64_t) \<noteq> 0 \<Longrightarrow> unat (x - 1) = unat x - 1"
  by (simp add: unat_minus_one)

lemma window_inv_update:
  assumes "window_inv (usdtable st)"
  shows "\<exists>st'. update_eosusd_oracle h owner val st = Inr st'
           \<and> window_inv (usdtable st')
           \<and> length (usdtable st') = min (Suc (length (usdtable st))) 21
           \<and> statstable st' = statstable st \<and> oraclestable st' = oraclestable st"
proof -
  let ?t = "usdtable st"
  from assms have sorted: "sorted_wrt (<) (map usd_id ?t)" and len: "length ?t \<le> 21"
    and short: "length ?t < 21 \<Longrightarrow> \<forall>x\<in>set ?t. 2 ^ 64 \<le> unat (usd_id x) + length ?t"
    by (auto simp: window_inv_def)
  consider (empty) "?t = []" | (filling) "?t \<noteq> []" "length ?t < 21" | (full) "length ?t = 21"
    using len by fastforce
  then show ?thesis
  proof cases
    case empty
    have "unat (- 1 :: uint64_t) = 2 ^ 64 - 1"
      by (simp add: unsigned_minus_1_eq_mask mask_eq_exp_minus_1)
    then have "window_inv [\<lparr>usd_id = - 1, usd_owner = owner, usd_value = val,
        usd_average = val, usd_timestamp = current_time h\<rparr>]"
      by (simp add: window_inv_def)
    with update_eosusd_oracle_empty [OF empty, of h owner val] empty show ?thesis by simp
  next
    case filling
    let ?k = "usd_id (hd ?t) - 1"
    let ?new = "\<lparr>usd_id = ?k, usd_owner = owner, usd_value = val,
                 usd_average = val, usd_timestamp = current_time h\<rparr>"
    from filling(1) have hd_in: "hd ?t \<in> set ?t" by simp
    with short [OF filling(2)] have big: "2 ^ 64 \<le> unat (usd_id (hd ?t)) + length ?t" by blast
    from big filling(2) have pos: "0 < unat (usd_id (hd ?t))" by (rule_tac ccontr) simp
    then have nz: "usd_id (hd ?t) \<noteq> 0" by auto
    have below: "\<forall>x\<in>set ?t. ?k < usd_id x"
      using word_pred_less [OF nz] hd_least [OF sorted] by (meson less_le_trans)
    from update_eosusd_oracle_filling [OF refl filling below]
    have u: "update_eosusd_oracle h owner val st = Inr (st\<lparr>usdtable := ?new # ?t\<rparr>)" .
    have "sorted_wrt (<) (map usd_id (?new # ?t))" using sorted below by simp
    moreover have "\<forall>x\<in>set (?new # ?t). 2 ^ 64 \<le> unat (usd_id x) + length (?new # ?t)"
      using short [OF filling(2)] big pos unat_pred [OF nz] by auto
    ultimately have "window_inv (?new # ?t)"
      using filling(2) by (simp add: window_inv_def)
    with u filling(2) show ?thesis by simp
  next
    case full
    then have "21 \<le> length ?t" by simp
    from update_eosusd_oracle_full [OF refl this sorted, of h owner val]
    obtain t' a where u: "update_eosusd_oracle h owner val st = Inr (st\<lparr>usdtable := t'\<rparr>)"
      and e: "emplace_row usd_id
                \<lparr>usd_id = usd_id (hd ?t) - 1, usd_owner = owner, usd_value = val,
                 usd_average = a div 9, usd_timestamp = current_time h\<rparr> (butlast ?t) = Some t'"
      by blast
    have "sorted_wrt (<) (map usd_id (butlast ?t))"
      using sorted by (simp add: butlast_conv_take take_map [symmetric] sorted_wrt_take del: take_map)
    from sorted_emplace_row [OF this e] have "sorted_wrt (<) (map usd_id t')" .
    moreover have "length t' = 21" using length_emplace_row [OF e] full by simp
    ultimately have "window_inv t'" by (simp add: window_inv_def)
    with u full \<open>length t' = 21\<close> show ?thesis by simp
  qed
qed

lemma check_last_push_tables:
  "check_last_push h owner st = Inr st1 \<Longrightarrow>
   usdtable st1 = usdtable st \<and> oraclestable st1 = oraclestable st"
  by (auto simp: check_last_push_def and_then_def eosio_assert_def Let_def
      split: option.splits if_splits)

lemma write_action_accepted:
  assumes "write_action h owner val st = Inr st'"
  shows "\<exists>st1. check_last_push h owner st = Inr st1
           \<and> usdtable st1 = usdtable st \<and> oraclestable st1 = oraclestable st
           \<and> update_eosusd_oracle h owner val st1 = Inr st'
           \<and> owner \<in> set (authorization h) \<and> val_min \<le> val \<and> val \<le> val_max
           \<and> check_oracle h st owner"
proof -
  from assms obtain st1 where "check_last_push h owner st = Inr st1"
    "update_eosusd_oracle h owner val st1 = Inr st'"
    "owner \<in> set (authorization h)" "val_min \<le> val" "val \<le> val_max" "check_oracle h st owner"
    by (auto simp: write_action_def and_then_def require_auth_def eosio_assert_def
        split: if_splits sum.splits)
  with check_last_push_tables [OF this(1)] show ?thesis by blast
qed

lemma window_inv_write:
  assumes "write_action h owner val st = Inr st'" and "window_inv (usdtable st)"
  shows "window_inv (usdtable st')
         \<and> length (usdtable st') = min (Suc (length (usdtable st))) 21"
proof -
  from write_action_accepted [OF assms(1)] obtain st1 where
    st1: "usdtable st1 = usdtable st" "update_eosusd_oracle h owner val st1 = Inr st'" by blast
  from assms(2) st1(1) have "window_inv (usdtable st1)" by simp
  from window_inv_update [OF this, of h owner val] st1 show ?thesis by auto
qed

lemma window_inv_writes:
  assumes "writes subs st = Inr st'" and "window_inv (usdtable st)"
  shows "window_inv (usdtable st')
         \<and> length (usdtable st') = min (length (usdtable st) + length subs) 21"
  using assms
proof (induction subs arbitrary: st)
  case Nil
  then show ?case by (simp add: window_inv_def)
next
  case (Cons x subs)
  obtain h owner val where x: "x = (h, owner, val)" by (cases x) auto
  with Cons.prems(1) obtain st1 where
    st1: "write_action h owner val st = Inr st1" "writes subs st1 = Inr st'"
    by (auto simp: and_then_def split: sum.splits)
  from window_inv_write [OF st1(1) Cons.prems(2)]
  have i: "window_inv (usdtable st1)"
    and l: "length (usdtable st1) = min (Suc (length (usdtable st))) 21" by auto
  from Cons.IH [OF st1(2) i] l show ?case by auto
qed

section \<open>The range check of the action write\<close>

text \<open>
  Claim C6. For the values \<open>val_min - 1 = 99\<close> and \<open>val_max + 1 = 100000001\<close> the
  action aborts for every caller, and the three tables are at that moment what they were
  at the start. For every caller whose authority the action carries the abort is
  \<open>OutOfRange\<close>, whatever the allow-list, the producer schedule and the rate state
  are: the range is checked before \<open>check_oracle\<close> and \<open>check_last_push\<close> run.
  (Without the caller's authority the action stops one step earlier, at
  \<^verbatim>\<open>require_auth\<close>.)
\<close>

theorem write_out_of_range:
  assumes "val = val_min - 1 \<or> val = val_max + 1"
  shows "write_action h owner val st
           = Inl (if owner \<in> set (authorization h) then OutOfRange else MissingAuth, st)
         \<and> val_min - 1 = 99 \<and> val_max + 1 = 100000001"
  using assms
  by (auto simp: write_action_def and_then_def require_auth_def eosio_assert_def
      val_min_def val_max_def)

theorem write_out_of_range_witness:
  "((99 :: uint64_t) = val_min - 1 \<or> (99 :: uint64_t) = val_max + 1)
   \<and> write_action \<lparr>authorization = [5], active_producers = [], current_time = 10\<rparr> 5 99
        \<lparr>usdtable = [], statstable = [\<lparr>stats_owner = 5, stats_timestamp = 10, stats_count = 0\<rparr>],
         oraclestable = [\<lparr>oracle_owner = 6\<rparr>]\<rparr>
       = Inl (OutOfRange,
        \<lparr>usdtable = [], statstable = [\<lparr>stats_owner = 5, stats_timestamp = 10, stats_count = 0\<rparr>],
         oraclestable = [\<lparr>oracle_owner = 6\<rparr>]\<rparr>)
   \<and> ((100000001 :: uint64_t) = val_min - 1 \<or> (100000001 :: uint64_t) = val_max + 1)
   \<and> write_action \<lparr>authorization = [5], active_producers = [5], current_time = 10\<rparr> 5 100000001
        \<lparr>usdtable = [], statstable = [], oraclestable = [\<lparr>oracle_owner = 5\<rparr>]\<rparr>
       = Inl (OutOfRange, \<lparr>usdtable = [], statstable = [], oraclestable = [\<lparr>oracle_owner = 5\<rparr>]\<rparr>)"
proof -
  have lo: "(99 :: uint64_t) = val_min - 1 \<or> (99 :: uint64_t) = val_max + 1"
    by (simp add: val_min_def)
  have hi: "(100000001 :: uint64_t) = val_min - 1 \<or> (100000001 :: uint64_t) = val_max + 1"
    by (simp add: val_max_def)
  from write_out_of_range [OF lo, of "\<lparr>authorization = [5], active_producers = [], current_time = 10\<rparr>" 5]
    write_out_of_range [OF hi, of "\<lparr>authorization = [5], active_producers = [5], current_time = 10\<rparr>" 5]
    lo hi
  show ?thesis by simp
qed

section \<open>The rate limit\<close>

lemma check_last_push_new:
  assumes "find_row stats_owner owner (statstable st) = None"
  shows "\<exists>store'. emplace_row stats_owner
            \<lparr>stats_owner = owner, stats_timestamp = current_time h, stats_count = 0\<rparr>
            (statstable st) = Some store'
          \<and> check_last_push h owner st = Inr (st\<lparr>statstable := store'\<rparr>)"
proof -
  from assms have "owner \<notin> stats_owner ` set (statstable st)"
    by (simp add: find_row_None_iff)
  then have "stats_owner \<lparr>stats_owner = owner, stats_timestamp = current_time h, stats_count = 0\<rparr>
      \<notin> stats_owner ` set (statstable st)"
    by simp
  from emplace_row_fresh [OF this] obtain store' where
    "emplace_row stats_owner
       \<lparr>stats_owner = owner, stats_timestamp = current_time h, stats_count = 0\<rparr>
       (statstable st) = Some store'" by blast
  with assms show ?thesis by (simp add: check_last_push_def)
qed

lemma update_eosusd_oracle_not_RateLimited:
  "update_eosusd_oracle h owner val st \<noteq> Inl (RateLimited, s)"
  by (auto simp: update_eosusd_oracle_def Let_def split: list.splits option.splits)

text \<open>
  Claim C5. A reporter without a row in the rate table passes \<open>check_last_push\<close> at
  every time: the call stores the row \<open>(owner, current_time, 0)\<close>, leaves the rows of
  the other reporters as they are, and the action \<open>write\<close> never aborts with
  \<open>RateLimited\<close> for this reporter.
\<close>

theorem first_push_accepted:
  assumes "find_row stats_owner owner (statstable st) = None"
  shows "\<exists>store'. check_last_push h owner st = Inr (st\<lparr>statstable := store'\<rparr>)
          \<and> find_row stats_owner owner store'
              = Some \<lparr>stats_owner = owner, stats_timestamp = current_time h, stats_count = 0\<rparr>
          \<and> (\<forall>k. k \<noteq> owner \<longrightarrow> find_row stats_owner k store' = find_row stats_owner k (statstable st))
          \<and> (\<forall>val s. write_action h owner val st \<noteq> Inl (RateLimited, s))"
proof -
  from check_last_push_new [OF assms, of h] obtain store' where
    e: "emplace_row stats_owner
          \<lparr>stats_owner = owner, stats_timestamp = current_time h, stats_count = 0\<rparr>
          (statstable st) = Some store'"
    and c: "check_last_push h owner st = Inr (st\<lparr>statstable := store'\<rparr>)" by blast
  have "\<forall>val s. write_action h owner val st \<noteq> Inl (RateLimited, s)"
    using c update_eosusd_oracle_not_RateLimited
    by (auto simp: write_action_def and_then_def require_auth_def eosio_assert_def)
  with c find_row_emplace_row [OF e] show ?thesis by auto
qed

theorem first_push_accepted_witness:
  "find_row stats_owner 5 (statstable \<lparr>usdtable = [], statstable = [\<lparr>stats_owner = 4, stats_timestamp = 7, stats_count = 2\<rparr>], oraclestable = []\<rparr>) = None
   \<and> check_last_push \<lparr>authorization = [5], active_producers = [5], current_time = 0\<rparr> 5
        \<lparr>usdtable = [], statstable = [\<lparr>stats_owner = 4, stats_timestamp = 7, stats_count = 2\<rparr>], oraclestable = []\<rparr>
       = Inr \<lparr>usdtable = [],
              statstable = [\<lparr>stats_owner = 4, stats_timestamp = 7, stats_count = 2\<rparr>,
                            \<lparr>stats_owner = 5, stats_timestamp = 0, stats_count = 0\<rparr>],
              oraclestable = []\<rparr>
   \<and> (\<forall>val s. write_action \<lparr>authorization = [5], active_producers = [5], current_time = 0\<rparr> 5 val
        \<lparr>usdtable = [], statstable = [\<lparr>stats_owner = 4, stats_timestamp = 7, stats_count = 2\<rparr>], oraclestable = []\<rparr>
        \<noteq> Inl (RateLimited, s))"
  using first_push_accepted [of 5 "\<lparr>usdtable = [], statstable = [\<lparr>stats_owner = 4, stats_timestamp = 7, stats_count = 2\<rparr>], oraclestable = []\<rparr>"
      "\<lparr>authorization = [5], active_producers = [5], current_time = 0\<rparr>"]
  by (simp add: check_last_push_def)

lemma check_last_push_found:
  assumes "find_row stats_owner owner (statstable st) = Some last_push"
  shows "check_last_push h owner st =
           (if stats_timestamp last_push + one_minute \<le> current_time h
            then Inr (st\<lparr>statstable :=
                   modify_row stats_owner owner
                     (\<lambda>s. s\<lparr>stats_timestamp := current_time h, stats_count := stats_count s + 1\<rparr>)
                     (statstable st)\<rparr>)
            else Inl (RateLimited, st))"
  using assms by (simp add: check_last_push_def and_then_def eosio_assert_def)

lemma one_minute_le_iff:
  assumes "unat (t :: uint64_t) + 55000000 < 2 ^ 64"
  shows "t + one_minute \<le> now \<longleftrightarrow> unat t + 55000000 \<le> unat now"
proof -
  have m: "unat one_minute = 55000000" by (simp add: one_minute_def)
  with assms have "unat (t + one_minute) = unat t + 55000000"
    by (simp add: unat_add_lem [THEN iffD1])
  then show ?thesis by (simp add: word_le_nat_alt)
qed

text \<open>
  Claim C3, amended. For a reporter with a row \<open>last_push\<close> in the rate table whose
  \<open>lastWriteAt + 55000000\<close> fits into 64 bits, at time \<open>now = current_time h\<close>: if
  \<open>lastWriteAt + 55000000 \<le> now\<close> the call succeeds, the row gets \<open>lastWriteAt = now\<close>
  and its count incremented by one (in 64 bits), and the other rows stay; otherwise the
  call aborts with \<open>RateLimited\<close> and all three tables are what they were, also for
  the whole action \<open>write\<close>. \<open>one_minute\<close> is 55000000 microseconds.
\<close>

theorem rate_limit_existing:
  assumes "find_row stats_owner owner (statstable st) = Some last_push"
      and "unat (stats_timestamp last_push) + 55000000 < 2 ^ 64"
  shows "(unat (stats_timestamp last_push) + 55000000 \<le> unat (current_time h) \<longrightarrow>
            (\<exists>store'. check_last_push h owner st = Inr (st\<lparr>statstable := store'\<rparr>)
               \<and> find_row stats_owner owner store'
                   = Some (last_push\<lparr>stats_timestamp := current_time h,
                                     stats_count := stats_count last_push + 1\<rparr>)
               \<and> (\<forall>k. k \<noteq> owner \<longrightarrow>
                     find_row stats_owner k store' = find_row stats_owner k (statstable st))))
       \<and> (\<not> unat (stats_timestamp last_push) + 55000000 \<le> unat (current_time h) \<longrightarrow>
            check_last_push h owner st = Inl (RateLimited, st)
            \<and> (owner \<in> set (authorization h) \<and> val_min \<le> val \<and> val \<le> val_max
                 \<and> check_oracle h st owner \<longrightarrow>
               write_action h owner val st = Inl (RateLimited, st)))
       \<and> unat one_minute = 55000000
       \<and> (unat (stats_count last_push) + 1 < 2 ^ 64 \<longrightarrow>
            unat (stats_count last_push + 1) = unat (stats_count last_push) + 1)"
proof -
  let ?f = "\<lambda>s. s\<lparr>stats_timestamp := current_time h, stats_count := stats_count s + 1\<rparr>"
  have f: "find_row stats_owner k (modify_row stats_owner owner ?f (statstable st))
      = (if k = owner then map_option ?f (find_row stats_owner k (statstable st))
         else find_row stats_owner k (statstable st))" for k
    by (rule find_row_modify_row) simp
  have m: "unat one_minute = 55000000"
    by (simp add: one_minute_def)
  have c: "unat (stats_count last_push + 1) = unat (stats_count last_push) + 1"
    if "unat (stats_count last_push) + 1 < 2 ^ 64"
    using that by (simp add: unat_add_lem [THEN iffD1])
  note le = one_minute_le_iff [OF assms(2), of "current_time h"]
  show ?thesis
    using assms(1) f m c check_last_push_found [OF assms(1), of h]
    by (auto simp: le write_action_def and_then_def require_auth_def eosio_assert_def)
qed

theorem rate_limit_existing_witness:
  "find_row stats_owner 5 (statstable \<lparr>usdtable = [], statstable = [\<lparr>stats_owner = 5, stats_timestamp = 1000, stats_count = 2\<rparr>], oraclestable = []\<rparr>)
     = Some \<lparr>stats_owner = 5, stats_timestamp = 1000, stats_count = 2\<rparr>
   \<and> unat (stats_timestamp \<lparr>stats_owner = 5, stats_timestamp = 1000, stats_count = 2\<rparr>) + 55000000 < 2 ^ 64
   \<and> check_last_push \<lparr>authorization = [5], active_producers = [5], current_time = 55001000\<rparr> 5
        \<lparr>usdtable = [], statstable = [\<lparr>stats_owner = 5, stats_timestamp = 1000, stats_count = 2\<rparr>], oraclestable = []\<rparr>
       = Inr \<lparr>usdtable = [], statstable = [\<lparr>stats_owner = 5, stats_timestamp = 55001000, stats_count = 3\<rparr>], oraclestable = []\<rparr>
   \<and> write_action \<lparr>authorization = [5], active_producers = [5], current_time = 55000999\<rparr> 5 100
        \<lparr>usdtable = [], statstable = [\<lparr>stats_owner = 5, stats_timestamp = 1000, stats_count = 2\<rparr>], oraclestable = []\<rparr>
       = Inl (RateLimited,
           \<lparr>usdtable = [], statstable = [\<lparr>stats_owner = 5, stats_timestamp = 1000, stats_count = 2\<rparr>], oraclestable = []\<rparr>)"
proof -
  let ?st = "\<lparr>usdtable = [], statstable = [\<lparr>stats_owner = 5, stats_timestamp = 1000, stats_count = 2\<rparr>], oraclestable = []\<rparr>"
  let ?row = "\<lparr>stats_owner = 5, stats_timestamp = 1000, stats_count = 2\<rparr>"
  have 1: "find_row stats_owner 5 (statstable ?st) = Some ?row" by simp
  have 2: "unat (stats_timestamp ?row) + 55000000 < 2 ^ 64" by simp
  from rate_limit_existing [OF 1 2, of "\<lparr>authorization = [5], active_producers = [5], current_time = 55001000\<rparr>" 100]
    rate_limit_existing [OF 1 2, of "\<lparr>authorization = [5], active_producers = [5], current_time = 55000999\<rparr>" 100]
  show ?thesis
    by (simp add: val_min_def val_max_def check_oracle_def get_active_producers_def
      producers_loop.simps check_last_push_def and_then_def eosio_assert_def modify_row_def
      one_minute_def)
qed

text \<open>
  Claim C3 as it is written has no bound on the times. The contract adds in 64 bits:
  after a write at \<open>2^64 - 10\<close> the sum \<open>lastWriteAt + 55000000\<close> wraps around to
  54999990, and the write of the same reporter 5 microseconds later is accepted.
\<close>

theorem rate_limit_overflow_counterexample:
  "writes [(sample_host 18446744073709551606, 5, 100), (sample_host 18446744073709551611, 5, 100)]
     no_tables
   = Inr \<lparr>usdtable =
            [\<lparr>usd_id = 18446744073709551614, usd_owner = 5, usd_value = 100,
              usd_average = 100, usd_timestamp = 18446744073709551611\<rparr>,
             \<lparr>usd_id = 18446744073709551615, usd_owner = 5, usd_value = 100,
              usd_average = 100, usd_timestamp = 18446744073709551606\<rparr>],
          statstable = [\<lparr>stats_owner = 5, stats_timestamp = 18446744073709551611,
                         stats_count = 1\<rparr>],
          oraclestable = []\<rparr>
   \<and> \<not> unat (18446744073709551606 :: uint64_t) + 55000000
         \<le> unat (18446744073709551611 :: uint64_t)"
  by (simp add: sample_host_def write_action_def and_then_def
      require_auth_def eosio_assert_def val_min_def val_max_def check_oracle_def
      get_active_producers_def producers_loop.simps check_last_push_def one_minute_def
      modify_row_def update_eosusd_oracle_def datapoints_count_def Let_def no_tables_def)

section \<open>Qualified oracles\<close>

lemma oracles_loop_iff: "oracles_loop t owner \<longleftrightarrow> owner \<in> oracle_owner ` set t"
  by (induction t) auto

lemma producers_loop_iff:
  "producers_loop producers i owner \<longleftrightarrow> (\<exists>j. i \<le> j \<and> j < 21 \<and> producers ! j = owner)"
proof (induction producers i owner rule: producers_loop.induct)
  case (1 producers i owner)
  show ?case
  proof (cases "i < 21")
    case False
    then show ?thesis by (subst producers_loop.simps) auto
  next
    case True
    show ?thesis
    proof (cases "producers ! i = owner")
      case True
      with \<open>i < 21\<close> show ?thesis by (subst producers_loop.simps) auto
    next
      case False
      have "(\<exists>j. i + 1 \<le> j \<and> j < 21 \<and> producers ! j = owner)
          \<longleftrightarrow> (\<exists>j. i \<le> j \<and> j < 21 \<and> producers ! j = owner)"
      proof -
        have "i \<le> j \<and> producers ! j = owner \<longleftrightarrow> i + 1 \<le> j \<and> producers ! j = owner" for j
          using False by (cases "j = i") auto
        then show ?thesis by auto
      qed
      with "1.IH" [OF \<open>i < 21\<close> False] \<open>i < 21\<close> False show ?thesis
        by (subst producers_loop.simps) simp
    qed
  qed
qed

lemma nth_get_active_producers:
  "j < 21 \<Longrightarrow> get_active_producers h (replicate 21 0) ! j
     = (if j < length (active_producers h) then active_producers h ! j else 0)"
  by (auto simp: get_active_producers_def Let_def nth_append min_def)

lemma check_oracle_iff:
  "check_oracle h st owner \<longleftrightarrow>
     owner \<in> oracle_owner ` set (oraclestable st)
     \<or> owner \<in> set (take 21 (active_producers h))
     \<or> (owner = 0 \<and> length (active_producers h) < 21)"
proof -
  have "(\<exists>j<21. (if j < length (active_producers h) then active_producers h ! j else 0) = owner)
      \<longleftrightarrow> owner \<in> set (take 21 (active_producers h))
          \<or> (owner = 0 \<and> length (active_producers h) < 21)" (is "?L \<longleftrightarrow> ?R")
  proof
    assume ?L
    then obtain j where j: "j < 21"
      "(if j < length (active_producers h) then active_producers h ! j else 0) = owner" by blast
    show ?R
    proof (cases "j < length (active_producers h)")
      case True
      with j have "owner = take 21 (active_producers h) ! j" "j < length (take 21 (active_producers h))"
        by auto
      then show ?thesis using nth_mem by blast
    next
      case False
      with j show ?thesis by auto
    qed
  next
    assume ?R
    then show ?L
    proof
      assume "owner \<in> set (take 21 (active_producers h))"
      then obtain j where "j < length (take 21 (active_producers h))"
        "take 21 (active_producers h) ! j = owner"
        by (auto simp: in_set_conv_nth)
      then show ?L by (intro exI [of _ j]) auto
    next
      assume "owner = 0 \<and> length (active_producers h) < 21"
      then show ?L by (intro exI [of _ "length (active_producers h)"]) auto
    qed
  qed
  moreover have "producers_loop (get_active_producers h (replicate 21 0)) 0 owner
      \<longleftrightarrow> (\<exists>j<21. (if j < length (active_producers h) then active_producers h ! j else 0) = owner)"
    unfolding producers_loop_iff using nth_get_active_producers [of _ h] by auto
  ultimately show ?thesis
    by (simp only: check_oracle_def oracles_loop_iff Let_def if_True if_False split: if_splits)
      blast
qed

text \<open>
  Claim C7. The 21 slots of the array \<^verbatim>\<open>producers\<close> start as 0, the host fills only as
  many as there are active producers, and the loop compares all 21 with \<open>owner\<close>, without
  looking at \<^verbatim>\<open>bytes_populated\<close>. So the account 0, which is neither in the allow-list
  nor an active producer, counts as qualified when fewer than 21 producers are active.
\<close>

theorem check_oracle_null_account:
  "check_oracle \<lparr>authorization = [], active_producers = [1, 2, 3], current_time = 0\<rparr>
     \<lparr>usdtable = [], statstable = [], oraclestable = [\<lparr>oracle_owner = 9\<rparr>]\<rparr> 0
   \<and> (0 :: account_name) \<notin> oracle_owner ` set [\<lparr>oracle_owner = 9\<rparr>]
   \<and> (0 :: account_name) \<notin> set [1, 2, 3]"
  by (simp add: check_oracle_def get_active_producers_def producers_loop.simps)

section \<open>Replacing the allow-list\<close>

lemma emplace_oracles_distinct:
  assumes "distinct oracleslist"
      and "set oracleslist \<inter> oracle_owner ` set (oraclestable st) = {}"
  shows "\<exists>t. emplace_oracles oracleslist st = Inr (st\<lparr>oraclestable := t\<rparr>)
           \<and> oracle_owner ` set t = set oracleslist \<union> oracle_owner ` set (oraclestable st)"
  using assms
proof (induction oracleslist arbitrary: st)
  case Nil
  show ?case by (intro exI [of _ "oraclestable st"]) simp
next
  case (Cons name rest)
  from Cons.prems have "oracle_owner \<lparr>oracle_owner = name\<rparr> \<notin> oracle_owner ` set (oraclestable st)"
    by auto
  from emplace_row_fresh [OF this] obtain t where
    t: "emplace_row oracle_owner \<lparr>oracle_owner = name\<rparr> (oraclestable st) = Some t" by blast
  have keys: "oracle_owner ` set t = insert name (oracle_owner ` set (oraclestable st))"
    using set_emplace_row [OF t] by simp
  have "distinct rest" "set rest \<inter> oracle_owner ` set (oraclestable (st\<lparr>oraclestable := t\<rparr>)) = {}"
    using Cons.prems keys by auto
  from Cons.IH [OF this] obtain t' where
    "emplace_oracles rest (st\<lparr>oraclestable := t\<rparr>) = Inr (st\<lparr>oraclestable := t'\<rparr>)"
    "oracle_owner ` set t' = set rest \<union> oracle_owner ` set t"
    by auto
  with t keys show ?case by auto
qed

lemma emplace_oracles_repeated:
  assumes "sorted_wrt (<) (map oracle_owner (oraclestable st))"
      and "\<not> distinct oracleslist \<or> set oracleslist \<inter> oracle_owner ` set (oraclestable st) \<noteq> {}"
  shows "\<exists>s. emplace_oracles oracleslist st = Inl (DuplicateKey, s)"
  using assms
proof (induction oracleslist arbitrary: st)
  case Nil
  then show ?case by simp
next
  case (Cons name rest)
  show ?case
  proof (cases "emplace_row oracle_owner \<lparr>oracle_owner = name\<rparr> (oraclestable st)")
    case None
    then show ?thesis by simp
  next
    case (Some t)
    have fresh: "name \<notin> oracle_owner ` set (oraclestable st)"
      using emplace_row_Some_fresh [OF Cons.prems(1) Some] by simp
    have keys: "oracle_owner ` set t = insert name (oracle_owner ` set (oraclestable st))"
      using set_emplace_row [OF Some] by simp
    have "sorted_wrt (<) (map oracle_owner (oraclestable (st\<lparr>oraclestable := t\<rparr>)))"
      using sorted_emplace_row [OF Cons.prems(1) Some] by simp
    moreover have "\<not> distinct rest
        \<or> set rest \<inter> oracle_owner ` set (oraclestable (st\<lparr>oraclestable := t\<rparr>)) \<noteq> {}"
      using Cons.prems(2) fresh keys by auto
    ultimately have "\<exists>s. emplace_oracles rest (st\<lparr>oraclestable := t\<rparr>) = Inl (DuplicateKey, s)"
      by (rule Cons.IH)
    with Some show ?thesis by simp
  qed
qed

text \<open>
  Claim C8, amended. With the authority of the controlling account, \<open>setoracles\<close>
  erases the whole allow-list and stores the accounts of the new list, for every list
  without a repeated account, the empty one too: afterwards the accounts of the table
  are those of the list, and the other two tables are untouched. A list that repeats an
  account is refused: the table is keyed by \<open>owner\<close>, and the second \<^verbatim>\<open>emplace\<close> of
  the same account aborts the action, which leaves the storage as it was before.
\<close>

theorem setoracles_replaces:
  assumes "titan_account \<in> set (authorization h)"
  shows "(distinct oracleslist \<longrightarrow>
            (\<exists>t. setoracles h oracleslist st = Inr (st\<lparr>oraclestable := t\<rparr>)
               \<and> oracle_owner ` set t = set oracleslist
               \<and> (\<forall>owner. oracles_loop t owner \<longleftrightarrow> owner \<in> set oracleslist)))
       \<and> (\<not> distinct oracleslist \<longrightarrow>
            (\<exists>s. setoracles h oracleslist st = Inl (DuplicateKey, s))
            \<and> transaction (setoracles h oracleslist) st = (Some DuplicateKey, st))"
proof (intro conjI impI)
  assume d: "distinct oracleslist"
  have "set oracleslist \<inter> oracle_owner ` set (oraclestable (st\<lparr>oraclestable := []\<rparr>)) = {}"
    by simp
  from emplace_oracles_distinct [OF d this] obtain t where
    "emplace_oracles oracleslist (st\<lparr>oraclestable := []\<rparr>) = Inr (st\<lparr>oraclestable := t\<rparr>)"
    "oracle_owner ` set t = set oracleslist"
    by auto
  with assms show "\<exists>t. setoracles h oracleslist st = Inr (st\<lparr>oraclestable := t\<rparr>)
               \<and> oracle_owner ` set t = set oracleslist
               \<and> (\<forall>owner. oracles_loop t owner \<longleftrightarrow> owner \<in> set oracleslist)"
    by (auto simp: setoracles_def and_then_def require_auth_def erase_all_empty oracles_loop_iff)
next
  assume d: "\<not> distinct oracleslist"
  have "sorted_wrt (<) (map oracle_owner (oraclestable (st\<lparr>oraclestable := []\<rparr>)))" by simp
  from emplace_oracles_repeated [OF this] d
  have "\<exists>s. emplace_oracles oracleslist (st\<lparr>oraclestable := []\<rparr>) = Inl (DuplicateKey, s)"
    by blast
  with assms have r: "\<exists>s. setoracles h oracleslist st = Inl (DuplicateKey, s)"
    by (auto simp: setoracles_def and_then_def require_auth_def erase_all_empty)
  then show "\<exists>s. setoracles h oracleslist st = Inl (DuplicateKey, s)" .
  from r show "transaction (setoracles h oracleslist) st = (Some DuplicateKey, st)"
    by (auto simp: transaction_def)
qed

theorem setoracles_replaces_witness:
  "titan_account \<in> set (authorization \<lparr>authorization = [titan_account], active_producers = [], current_time = 0\<rparr>)
   \<and> distinct [9, 7, 8 :: account_name]
   \<and> setoracles \<lparr>authorization = [titan_account], active_producers = [], current_time = 0\<rparr> [9, 7, 8]
        \<lparr>usdtable = [], statstable = [], oraclestable = [\<lparr>oracle_owner = 1\<rparr>, \<lparr>oracle_owner = 9\<rparr>]\<rparr>
       = Inr \<lparr>usdtable = [], statstable = [],
              oraclestable = [\<lparr>oracle_owner = 7\<rparr>, \<lparr>oracle_owner = 8\<rparr>, \<lparr>oracle_owner = 9\<rparr>]\<rparr>
   \<and> distinct ([] :: account_name list)
   \<and> setoracles \<lparr>authorization = [titan_account], active_producers = [], current_time = 0\<rparr> []
        \<lparr>usdtable = [], statstable = [], oraclestable = [\<lparr>oracle_owner = 1\<rparr>, \<lparr>oracle_owner = 9\<rparr>]\<rparr>
       = Inr \<lparr>usdtable = [], statstable = [], oraclestable = []\<rparr>
   \<and> \<not> distinct [7, 7 :: account_name]
   \<and> (\<exists>s. setoracles \<lparr>authorization = [titan_account], active_producers = [], current_time = 0\<rparr> [7, 7]
        \<lparr>usdtable = [], statstable = [], oraclestable = [\<lparr>oracle_owner = 1\<rparr>, \<lparr>oracle_owner = 9\<rparr>]\<rparr>
       = Inl (DuplicateKey, s))"
  using setoracles_replaces [of "\<lparr>authorization = [titan_account], active_producers = [], current_time = 0\<rparr>"
      "[9, 7, 8]"
      "\<lparr>usdtable = [], statstable = [], oraclestable = [\<lparr>oracle_owner = 1\<rparr>, \<lparr>oracle_owner = 9\<rparr>]\<rparr>"]
    setoracles_replaces [of "\<lparr>authorization = [titan_account], active_producers = [], current_time = 0\<rparr>"
      "[]"
      "\<lparr>usdtable = [], statstable = [], oraclestable = [\<lparr>oracle_owner = 1\<rparr>, \<lparr>oracle_owner = 9\<rparr>]\<rparr>"]
    setoracles_replaces [of "\<lparr>authorization = [titan_account], active_producers = [], current_time = 0\<rparr>"
      "[7, 7]"
      "\<lparr>usdtable = [], statstable = [], oraclestable = [\<lparr>oracle_owner = 1\<rparr>, \<lparr>oracle_owner = 9\<rparr>]\<rparr>"]
  by (simp add: setoracles_def and_then_def require_auth_def erase_all_empty)

text \<open>
  Claim C8 as it is written fails on a list with a repeated account: the list
  \<open>[7, 7]\<close> is refused with \<open>DuplicateKey\<close>, the table holding the one row stored
  before the abort.
\<close>

theorem setoracles_duplicate_counterexample:
  "setoracles \<lparr>authorization = [titan_account], active_producers = [], current_time = 0\<rparr> [7, 7]
     \<lparr>usdtable = [], statstable = [], oraclestable = []\<rparr>
   = Inl (DuplicateKey, \<lparr>usdtable = [], statstable = [], oraclestable = [\<lparr>oracle_owner = 7\<rparr>]\<rparr>)"
  by (simp add: setoracles_def and_then_def require_auth_def erase_all_empty)

section \<open>The reset\<close>

lemma clear_empties:
  "titan_account \<in> set (authorization h) \<Longrightarrow>
   clear h st = Inr \<lparr>usdtable = [], statstable = [], oraclestable = []\<rparr>"
  by (simp add: clear_def and_then_def require_auth_def erase_all_empty Let_def)

lemma check_last_push_fresh:
  "check_last_push h owner \<lparr>usdtable = [], statstable = [], oraclestable = []\<rparr>
   = Inr \<lparr>usdtable = [],
          statstable = [\<lparr>stats_owner = owner, stats_timestamp = current_time h, stats_count = 0\<rparr>],
          oraclestable = []\<rparr>"
  by (simp add: check_last_push_def)

lemma write_action_fresh:
  "write_action h owner val \<lparr>usdtable = [], statstable = [], oraclestable = []\<rparr> =
     (if owner \<notin> set (authorization h)
      then Inl (MissingAuth, \<lparr>usdtable = [], statstable = [], oraclestable = []\<rparr>)
      else if \<not> (val_min \<le> val \<and> val \<le> val_max)
      then Inl (OutOfRange, \<lparr>usdtable = [], statstable = [], oraclestable = []\<rparr>)
      else if \<not> check_oracle h \<lparr>usdtable = [], statstable = [], oraclestable = []\<rparr> owner
      then Inl (NotQualified, \<lparr>usdtable = [], statstable = [], oraclestable = []\<rparr>)
      else Inr \<lparr>usdtable = [\<lparr>usd_id = - 1, usd_owner = owner, usd_value = val,
                             usd_average = val, usd_timestamp = current_time h\<rparr>],
                statstable = [\<lparr>stats_owner = owner, stats_timestamp = current_time h,
                               stats_count = 0\<rparr>],
                oraclestable = []\<rparr>)"
  by (simp add: write_action_def and_then_def require_auth_def eosio_assert_def
      check_last_push_fresh update_eosusd_oracle_def)

text \<open>
  Claim C9. With the authority of the controlling account, \<open>clear\<close> leaves all three
  tables empty. On these tables no \<open>write\<close> aborts with \<open>RateLimited\<close>, whoever the
  reporter and whatever the time; a write that passes the authority, range and
  qualification checks is stored as a first write: key \<open>2^64 - 1\<close> in the window and
  the row \<open>(owner, now, 0)\<close> in the rate table.
\<close>

theorem clear_resets:
  assumes "titan_account \<in> set (authorization h)"
  shows "\<exists>st'. clear h st = Inr st'
           \<and> usdtable st' = [] \<and> statstable st' = [] \<and> oraclestable st' = []
           \<and> (\<forall>h' owner val s. write_action h' owner val st' \<noteq> Inl (RateLimited, s))
           \<and> (\<forall>h' owner val. owner \<in> set (authorization h') \<and> val_min \<le> val \<and> val \<le> val_max
                  \<and> check_oracle h' st' owner \<longrightarrow>
                write_action h' owner val st'
                = Inr \<lparr>usdtable = [\<lparr>usd_id = - 1, usd_owner = owner, usd_value = val,
                                     usd_average = val, usd_timestamp = current_time h'\<rparr>],
                       statstable = [\<lparr>stats_owner = owner, stats_timestamp = current_time h',
                                       stats_count = 0\<rparr>],
                       oraclestable = []\<rparr>)"
  using clear_empties [OF assms, of st] by (simp add: write_action_fresh)

theorem clear_resets_witness:
  "titan_account \<in> set (authorization \<lparr>authorization = [titan_account], active_producers = [5], current_time = 2000\<rparr>)
   \<and> write_action \<lparr>authorization = [5], active_producers = [5], current_time = 2000\<rparr> 5 100
        \<lparr>usdtable = [\<lparr>usd_id = - 1, usd_owner = 5, usd_value = 300, usd_average = 300, usd_timestamp = 1000\<rparr>],
         statstable = [\<lparr>stats_owner = 5, stats_timestamp = 1000, stats_count = 0\<rparr>],
         oraclestable = [\<lparr>oracle_owner = 5\<rparr>]\<rparr>
       = Inl (RateLimited,
        \<lparr>usdtable = [\<lparr>usd_id = - 1, usd_owner = 5, usd_value = 300, usd_average = 300, usd_timestamp = 1000\<rparr>],
         statstable = [\<lparr>stats_owner = 5, stats_timestamp = 1000, stats_count = 0\<rparr>],
         oraclestable = [\<lparr>oracle_owner = 5\<rparr>]\<rparr>)
   \<and> clear \<lparr>authorization = [titan_account], active_producers = [5], current_time = 2000\<rparr>
        \<lparr>usdtable = [\<lparr>usd_id = - 1, usd_owner = 5, usd_value = 300, usd_average = 300, usd_timestamp = 1000\<rparr>],
         statstable = [\<lparr>stats_owner = 5, stats_timestamp = 1000, stats_count = 0\<rparr>],
         oraclestable = [\<lparr>oracle_owner = 5\<rparr>]\<rparr>
       = Inr \<lparr>usdtable = [], statstable = [], oraclestable = []\<rparr>
   \<and> write_action \<lparr>authorization = [5], active_producers = [5], current_time = 2000\<rparr> 5 100
        \<lparr>usdtable = [], statstable = [], oraclestable = []\<rparr>
       = Inr \<lparr>usdtable = [\<lparr>usd_id = - 1, usd_owner = 5, usd_value = 100, usd_average = 100, usd_timestamp = 2000\<rparr>],
              statstable = [\<lparr>stats_owner = 5, stats_timestamp = 2000, stats_count = 0\<rparr>],
              oraclestable = []\<rparr>"
  using clear_resets [of "\<lparr>authorization = [titan_account], active_producers = [5], current_time = 2000\<rparr>"
        "\<lparr>usdtable = [\<lparr>usd_id = - 1, usd_owner = 5, usd_value = 300, usd_average = 300, usd_timestamp = 1000\<rparr>],
         statstable = [\<lparr>stats_owner = 5, stats_timestamp = 1000, stats_count = 0\<rparr>],
         oraclestable = [\<lparr>oracle_owner = 5\<rparr>]\<rparr>"]
  by (auto simp: write_action_def and_then_def require_auth_def eosio_assert_def val_min_def val_max_def
      check_oracle_def check_last_push_def one_minute_def get_active_producers_def
      producers_loop.simps update_eosusd_oracle_def)

section \<open>The trimmed average\<close>

lemma insort_unat: "map unat (insort (w :: uint64_t) ws) = insort (unat w) (map unat ws)"
  by (induction ws) (auto simp: word_le_nat_alt)

lemma sort_map_unat: "sort (map unat (ws :: uint64_t list)) = map unat (sort ws)"
  by (induction ws) (simp_all add: insort_unat)

lemma sum_list_unat_bound:
  "\<forall>w\<in>set ws. unat (w :: uint64_t) \<le> b \<Longrightarrow> sum_list (map unat ws) \<le> length ws * b"
  by (induction ws) (auto simp: add_mono)

lemma unat_sum_list:
  "sum_list (map unat ws) < 2 ^ 64 \<Longrightarrow> unat (sum_list ws :: uint64_t) = sum_list (map unat ws)"
proof (induction ws)
  case Nil
  then show ?case by simp
next
  case (Cons w ws)
  then have "sum_list (map unat ws) < 2 ^ 64" by simp
  with Cons.IH have "unat (sum_list ws) = sum_list (map unat ws)" by simp
  with Cons.prems show ?case
    by (simp add: unat_add_lem [THEN iffD1])
qed

lemma rank_sum_7_15:
  "rank_sum 7 15 t = sum_list (map unat (take 9 (drop 6 (sort (map usd_value t)))))"
proof -
  have "map (\<lambda>x. unat (usd_value x)) t = map unat (map usd_value t)" by simp
  then have "value_ranking t = map unat (sort (map usd_value t))"
    unfolding value_ranking_def by (simp only: sort_map_unat)
  then show ?thesis
    by (simp add: rank_sum_def take_map drop_map)
qed

text \<open>
  Claim C1, amended. When the window holds 21 observations with keys in ascending order
  and values of at most \<open>val_max\<close> (as every accepted value is), a further observation
  with such a value evicts the last row (the largest key), is inserted with the key of
  the first row minus one, and gets as its average the sum of the 9 values ranked 7th to
  15th in the value order of the resulting 21 rows, divided by 9 and rounded down. The
  values ranked 1st to 6th and 16th to 21st are left out. The rows that stay are the old
  rows, averages included.
\<close>

theorem trimmed_average_of_full_window:
  assumes "length (usdtable st) = 21"
      and "sorted_wrt (<) (map usd_id (usdtable st))"
      and "\<forall>x\<in>set (usdtable st). usd_value x \<le> val_max"
      and "val \<le> val_max"
  shows "\<exists>st' new. update_eosusd_oracle h owner val st = Inr st'
           \<and> statstable st' = statstable st \<and> oraclestable st' = oraclestable st
           \<and> emplace_row usd_id new (butlast (usdtable st)) = Some (usdtable st')
           \<and> length (usdtable st') = 21
           \<and> usd_id new = usd_id (hd (usdtable st)) - 1
           \<and> usd_owner new = owner \<and> usd_value new = val
           \<and> usd_timestamp new = current_time h
           \<and> unat (usd_average new) = rank_sum 7 15 (usdtable st') div 9"
proof -
  let ?t = "usdtable st"
  from assms(1) have "21 \<le> length ?t" by simp
  from update_eosusd_oracle_full [OF refl this assms(2), of h owner val]
  obtain t' a where u: "update_eosusd_oracle h owner val st = Inr (st\<lparr>usdtable := t'\<rparr>)"
    and e: "emplace_row usd_id
              \<lparr>usd_id = usd_id (hd ?t) - 1, usd_owner = owner, usd_value = val,
               usd_average = a div 9, usd_timestamp = current_time h\<rparr> (butlast ?t) = Some t'"
    and a: "a = sum_list (take 9 (drop 6 (sort (map usd_value t'))))"
    by blast
  let ?new = "\<lparr>usd_id = usd_id (hd ?t) - 1, usd_owner = owner, usd_value = val,
               usd_average = a div 9, usd_timestamp = current_time h\<rparr>"
  let ?ws = "take 9 (drop 6 (sort (map usd_value t')))"
  have "set t' = insert ?new (set (butlast ?t))" using set_emplace_row [OF e] .
  then have "\<forall>x\<in>set t'. usd_value x \<le> val_max"
    using assms(3,4) by (auto dest: in_set_butlastD)
  then have "\<forall>w\<in>set (sort (map usd_value t')). unat w \<le> 100000000"
    by (auto simp: word_le_nat_alt val_max_def)
  then have "\<forall>w\<in>set ?ws. unat w \<le> 100000000"
    by (meson in_set_takeD in_set_dropD)
  from sum_list_unat_bound [OF this] have "sum_list (map unat ?ws) \<le> length ?ws * 100000000" .
  also have "\<dots> \<le> 9 * 100000000" by simp
  finally have "sum_list (map unat ?ws) < 2 ^ 64" by simp
  from unat_sum_list [OF this] a have "unat a = rank_sum 7 15 t'"
    by (simp add: rank_sum_7_15)
  then have "unat (usd_average ?new) = rank_sum 7 15 t' div 9"
    by (simp add: unat_div)
  moreover have "length t' = 21"
    using length_emplace_row [OF e] assms(1) by simp
  ultimately show ?thesis
    using u e by (intro exI [of _ "st\<lparr>usdtable := t'\<rparr>"] exI [of _ ?new]) simp
qed

text \<open>
  Claim C1 as it is written takes the ranks 6 to 14. On the window after the 21 sample
  submissions, the submission of 5100 is stored with the average 5153, which is the
  average of the ranks 7 to 15; the ranks 6 to 14 give 5135.
\<close>

theorem trimmed_average_ranks_counterexample:
  "update_eosusd_oracle (sample_host 1320000000) 5 5100
     \<lparr>usdtable = window_from 18446744073709551595, statstable = [], oraclestable = []\<rparr>
   = Inr \<lparr>usdtable =
            \<lparr>usd_id = 18446744073709551594, usd_owner = 5, usd_value = 5100,
             usd_average = 5153, usd_timestamp = 1320000000\<rparr>
            # butlast (window_from 18446744073709551595),
          statstable = [], oraclestable = []\<rparr>
   \<and> rank_sum 6 14
        (\<lparr>usd_id = 18446744073709551594, usd_owner = 5, usd_value = 5100,
          usd_average = 5153, usd_timestamp = 1320000000\<rparr>
         # butlast (window_from 18446744073709551595)) div 9 = 5135"
  by (simp add: sample_host_def window_from_def update_eosusd_oracle_def datapoints_count_def
      trimmed_sum_eq modify_row_def Let_def rank_sum_def value_ranking_def)


theorem trimmed_average_of_full_window_witness:
  "length (usdtable \<lparr>usdtable = window_from 18446744073709551595, statstable = [], oraclestable = []\<rparr>) = 21
   \<and> sorted_wrt (<) (map usd_id (usdtable \<lparr>usdtable = window_from 18446744073709551595, statstable = [], oraclestable = []\<rparr>))
   \<and> list_all (\<lambda>x. usd_value x \<le> val_max) (usdtable \<lparr>usdtable = window_from 18446744073709551595, statstable = [], oraclestable = []\<rparr>)
   \<and> (5100 :: uint64_t) \<le> val_max
   \<and> (\<exists>st' new. update_eosusd_oracle (sample_host 1320000000) 5 5100
            \<lparr>usdtable = window_from 18446744073709551595, statstable = [], oraclestable = []\<rparr> = Inr st'
          \<and> emplace_row usd_id new (butlast (window_from 18446744073709551595)) = Some (usdtable st')
          \<and> usd_value new = 5100
          \<and> unat (usd_average new) = rank_sum 7 15 (usdtable st') div 9)"
proof -
  let ?st = "\<lparr>usdtable = window_from 18446744073709551595, statstable = [], oraclestable = []\<rparr>"
  have 1: "length (usdtable ?st) = 21"
    by (simp add: window_from_def)
  have 2: "sorted_wrt (<) (map usd_id (usdtable ?st))"
    by (simp add: window_from_def)
  have 3: "\<forall>x\<in>set (usdtable ?st). usd_value x \<le> val_max"
    by (simp add: window_from_def val_max_def)
  have 4: "(5100 :: uint64_t) \<le> val_max"
    by (simp add: val_max_def)
  from trimmed_average_of_full_window [OF 1 2 3 4, of "sample_host 1320000000" 5]
  obtain st' new where
    "update_eosusd_oracle (sample_host 1320000000) 5 5100 ?st = Inr st'"
    "emplace_row usd_id new (butlast (usdtable ?st)) = Some (usdtable st')"
    "usd_value new = 5100"
    "unat (usd_average new) = rank_sum 7 15 (usdtable st') div 9"
    by blast
  then have "\<exists>st' new. update_eosusd_oracle (sample_host 1320000000) 5 5100 ?st = Inr st'
          \<and> emplace_row usd_id new (butlast (window_from 18446744073709551595)) = Some (usdtable st')
          \<and> usd_value new = 5100
          \<and> unat (usd_average new) = rank_sum 7 15 (usdtable st') div 9"
    by auto
  with 1 2 3 4 show ?thesis by (simp only: list_all_iff)
qed

section \<open>Sequences of accepted submissions\<close>

lemma writes_append: "writes (xs @ ys) st = and_then (writes xs st) (writes ys)"
  by (induction xs arbitrary: st) (auto simp: and_then_def split: sum.splits)

lemma writes_snoc:
  assumes "writes (subs @ [(h, owner, val)]) st0 = Inr st"
  shows "\<exists>st1. writes subs st0 = Inr st1 \<and> write_action h owner val st1 = Inr st"
  using assms by (auto simp: writes_append and_then_def split: sum.splits)

text \<open>
  One more observation into a window that is not empty and whose first key is not 0: the
  new row comes first, before the 20 newest rows of the old window.
\<close>

lemma update_eosusd_oracle_front:
  assumes "usdtable st = t" and "t \<noteq> []" and "window_inv t" and "usd_id (hd t) \<noteq> 0"
  shows "\<exists>a. update_eosusd_oracle h owner val st
           = Inr (st\<lparr>usdtable := \<lparr>usd_id = usd_id (hd t) - 1, usd_owner = owner, usd_value = val,
                                    usd_average = a, usd_timestamp = current_time h\<rparr> # take 20 t\<rparr>)"
proof -
  from assms(3) have sorted: "sorted_wrt (<) (map usd_id t)" and len: "length t \<le> 21"
    by (auto simp: window_inv_def)
  have below: "\<forall>x\<in>set t. usd_id (hd t) - 1 < usd_id x"
    using word_pred_less [OF assms(4)] hd_least [OF sorted] by (meson less_le_trans)
  show ?thesis
  proof (cases "length t < 21")
    case True
    then have "take 20 t = t" by simp
    with update_eosusd_oracle_filling [OF assms(1,2) True below, of h owner val]
    show ?thesis by auto
  next
    case False
    with len have l: "length t = 21" by simp
    then have "21 \<le> length t" by simp
    from update_eosusd_oracle_full [OF assms(1) this sorted, of h owner val]
    obtain t' a where u: "update_eosusd_oracle h owner val st = Inr (st\<lparr>usdtable := t'\<rparr>)"
      and e: "emplace_row usd_id
                \<lparr>usd_id = usd_id (hd t) - 1, usd_owner = owner, usd_value = val,
                 usd_average = a div 9, usd_timestamp = current_time h\<rparr> (butlast t) = Some t'"
      by blast
    let ?new = "\<lparr>usd_id = usd_id (hd t) - 1, usd_owner = owner, usd_value = val,
                 usd_average = a div 9, usd_timestamp = current_time h\<rparr>"
    have "\<forall>x\<in>set (butlast t). usd_id ?new < usd_id x"
      using below by (auto dest: in_set_butlastD)
    from emplace_row_front [OF this] e have "t' = ?new # butlast t" by simp
    moreover have "butlast t = take 20 t" using l by (simp add: butlast_conv_take)
    ultimately show ?thesis using u by auto
  qed
qed

lemma upt_shift: "map f [0..<Suc m] = f 0 # map (\<lambda>j. f (Suc j)) [0..<m]"
  by (simp add: upt_conv_Cons map_Suc_upt [symmetric] del: upt_Suc)

lemma of_nat_64_nonzero: "0 < n \<Longrightarrow> n < 2 ^ 64 \<Longrightarrow> (of_nat n :: uint64_t) \<noteq> 0"
  by (auto simp: word_of_nat_eq_0_iff dest: dvd_imp_le)

text \<open>
  The window after \<open>n\<close> accepted submissions from an empty one, \<open>n \<le> 2^64\<close>: its keys
  are \<open>2^64 - n\<close> upwards, and its rows are the 21 latest submissions, newest first.
\<close>

lemma writes_window:
  assumes "usdtable st0 = []" and "writes subs st0 = Inr st" and "length subs \<le> 2 ^ 64"
  shows "map usd_id (usdtable st)
           = map (\<lambda>j. of_nat j - of_nat (length subs)) [0..<min (length subs) 21]
         \<and> map (\<lambda>x. (usd_owner x, usd_value x, usd_timestamp x)) (usdtable st)
           = take 21 (rev (map (\<lambda>(h, owner, val). (owner, val, current_time h)) subs))"
  using assms(2,3)
proof (induction subs arbitrary: st rule: rev_induct)
  case Nil
  with assms(1) show ?case by simp
next
  case (snoc x subs)
  obtain h owner val where x: "x = (h, owner, val)" by (cases x) auto
  from writes_snoc [OF snoc.prems(1) [unfolded x]] obtain st1 where
    st1: "writes subs st0 = Inr st1" "write_action h owner val st1 = Inr st" by blast
  let ?n = "length subs"
  from snoc.prems(2) have n: "?n < 2 ^ 64" by simp
  then have "?n \<le> 2 ^ 64" by simp
  from snoc.IH [OF st1(1) this]
  have ids: "map usd_id (usdtable st1) = map (\<lambda>j. of_nat j - of_nat ?n) [0..<min ?n 21]"
    and ent: "map (\<lambda>x. (usd_owner x, usd_value x, usd_timestamp x)) (usdtable st1)
        = take 21 (rev (map (\<lambda>(h, owner, val). (owner, val, current_time h)) subs))"
    by auto
  have "window_inv (usdtable st0)" using assms(1) by (simp add: window_inv_def)
  from window_inv_writes [OF st1(1) this]
  have inv: "window_inv (usdtable st1)" and len: "length (usdtable st1) = min ?n 21"
    using assms(1) by auto
  from write_action_accepted [OF st1(2)] obtain st2 where
    st2: "usdtable st2 = usdtable st1" "update_eosusd_oracle h owner val st2 = Inr st" by blast
  show ?case
  proof (cases "?n = 0")
    case True
    with len st2(1) have "usdtable st2 = []" by simp
    from update_eosusd_oracle_empty [OF this, of h owner val] st2(2) True x
    show ?thesis by auto
  next
    case False
    with len st2(1) have ne: "usdtable st2 \<noteq> []"
      by (auto simp: min_def split: if_splits)
    have "hd (map usd_id (usdtable st1)) = of_nat 0 - of_nat ?n"
      unfolding ids using False by (simp add: hd_map upt_conv_Cons del: upt_Suc)
    with ne st2(1) have hd: "usd_id (hd (usdtable st2)) = - of_nat ?n"
      by (simp add: hd_map)
    have "(of_nat ?n :: uint64_t) \<noteq> 0" using False n by (intro of_nat_64_nonzero) auto
    with hd have nz: "usd_id (hd (usdtable st2)) \<noteq> 0" by simp
    from inv st2(1) have "window_inv (usdtable st2)" by simp
    from update_eosusd_oracle_front [OF refl ne this nz, of h owner val] st2(2)
    obtain a where t: "usdtable st
        = \<lparr>usd_id = usd_id (hd (usdtable st2)) - 1, usd_owner = owner, usd_value = val,
           usd_average = a, usd_timestamp = current_time h\<rparr> # take 20 (usdtable st2)"
      by auto
    have m: "min (Suc ?n) 21 = Suc (min ?n 20)" by simp
    have tk: "take 20 [0..<min ?n 21] = [0..<min ?n 20]"
    proof (cases "20 \<le> ?n")
      case True
      then have "0 + 20 \<le> min ?n 21" by simp
      from take_upt [OF this] True show ?thesis by (simp add: min.absorb2)
    next
      case False
      then show ?thesis by (simp add: min.absorb1)
    qed
    have "map usd_id (usdtable st)
        = (- of_nat ?n - 1) # take 20 (map (\<lambda>j. of_nat j - of_nat ?n) [0..<min ?n 21])"
      using t hd st2(1) ids by (simp add: take_map [symmetric] del: take_map)
    also have "\<dots> = (- of_nat ?n - 1) # map (\<lambda>j. of_nat j - of_nat ?n) [0..<min ?n 20]"
      by (simp only: take_map tk)
    also have "\<dots> = map (\<lambda>j. of_nat j - of_nat (Suc ?n)) [0..<Suc (min ?n 20)]"
      by (subst upt_shift) simp
    finally have 1: "map usd_id (usdtable st)
        = map (\<lambda>j. of_nat j - of_nat (length (subs @ [x]))) [0..<min (length (subs @ [x])) 21]"
      using m by simp
    have "map (\<lambda>x. (usd_owner x, usd_value x, usd_timestamp x)) (usdtable st)
        = (owner, val, current_time h)
          # take 20 (take 21 (rev (map (\<lambda>(h, owner, val). (owner, val, current_time h)) subs)))"
      using t st2(1) ent by (simp add: take_map [symmetric] del: take_map)
    then have 2: "map (\<lambda>x. (usd_owner x, usd_value x, usd_timestamp x)) (usdtable st)
        = take 21 (rev (map (\<lambda>(h, owner, val). (owner, val, current_time h)) (subs @ [x])))"
      using x by (simp add: min.absorb1)
    from 1 2 show ?thesis by blast
  qed
qed


lemma unat_neg_of_nat:
  assumes "0 < k" and "k \<le> 2 ^ 64"
  shows "unat (- (of_nat k :: uint64_t)) = 2 ^ 64 - k"
proof (cases "k = 2 ^ 64")
  case True
  then have "(of_nat k :: uint64_t) = 0" by (simp add: word_of_nat_eq_0_iff)
  with True show ?thesis by simp
next
  case False
  with assms(2) have k: "k < 2 ^ 64" by simp
  then have u: "unat (of_nat k :: uint64_t) = k" by (simp add: unat_of_nat)
  have "unat (0 - (of_nat k :: uint64_t))
      = (if unat (of_nat k :: uint64_t) \<le> unat (0 :: uint64_t)
         then unat (0 :: uint64_t) - unat (of_nat k :: uint64_t)
         else unat (0 :: uint64_t) + 2 ^ size (0 :: uint64_t) - unat (of_nat k :: uint64_t))"
    by (rule unat_sub_if_size)
  with assms(1) u show ?thesis by (simp add: word_size)
qed

text \<open>
  Claim C2, amended. After any sequence of accepted submissions from an empty window,
  the window holds \<open>min n 21\<close> observations for \<open>n\<close> submissions, so never more than
  21. When it holds 21, a further accepted submission leaves the old window without its
  last row, which carries the largest key, plus the new row: 21 rows again. As long as
  no more than \<open>2^64\<close> submissions have been accepted, the rows are the 21 latest
  submissions, newest first, so the row that goes is the oldest.
\<close>

theorem window_capacity:
  assumes "usdtable st0 = []" and "writes subs st0 = Inr st"
  shows "length (usdtable st) = min (length subs) 21
       \<and> (\<forall>h owner val st'.
             length (usdtable st) = 21 \<and> write_action h owner val st = Inr st' \<longrightarrow>
               length (usdtable st') = 21
             \<and> (\<exists>new. usd_owner new = owner \<and> usd_value new = val
                   \<and> emplace_row usd_id new (butlast (usdtable st)) = Some (usdtable st'))
             \<and> (\<forall>x\<in>set (usdtable st). usd_id x \<le> usd_id (last (usdtable st))))
       \<and> (length subs \<le> 2 ^ 64 \<longrightarrow>
             map (\<lambda>x. (usd_owner x, usd_value x, usd_timestamp x)) (usdtable st)
             = take 21 (rev (map (\<lambda>(h, owner, val). (owner, val, current_time h)) subs)))"
proof (intro conjI allI impI)
  have "window_inv (usdtable st0)" using assms(1) by (simp add: window_inv_def)
  from window_inv_writes [OF assms(2) this] assms(1)
  have inv: "window_inv (usdtable st)" and len: "length (usdtable st) = min (length subs) 21"
    by auto
  show "length (usdtable st) = min (length subs) 21" by (rule len)
  from inv have sorted: "sorted_wrt (<) (map usd_id (usdtable st))"
    by (simp add: window_inv_def)
  {
    fix h owner val st'
    assume a: "length (usdtable st) = 21 \<and> write_action h owner val st = Inr st'"
    from write_action_accepted [of h owner val st st'] a obtain st1 where
      st1: "usdtable st1 = usdtable st" "update_eosusd_oracle h owner val st1 = Inr st'" by blast
    from a st1(1) have "21 \<le> length (usdtable st1)" by simp
    from update_eosusd_oracle_full [OF refl this, of h owner val] sorted st1
    obtain t' a' where t': "st' = st1\<lparr>usdtable := t'\<rparr>"
      "emplace_row usd_id
         \<lparr>usd_id = usd_id (hd (usdtable st)) - 1, usd_owner = owner, usd_value = val,
          usd_average = a' div 9, usd_timestamp = current_time h\<rparr> (butlast (usdtable st)) = Some t'"
      by auto
    from length_emplace_row [OF t'(2)] a t'(1)
    show "length (usdtable st') = 21" by simp
    from t' show "\<exists>new. usd_owner new = owner \<and> usd_value new = val
        \<and> emplace_row usd_id new (butlast (usdtable st)) = Some (usdtable st')"
      by (intro exI [of _ "\<lparr>usd_id = usd_id (hd (usdtable st)) - 1, usd_owner = owner,
          usd_value = val, usd_average = a' div 9, usd_timestamp = current_time h\<rparr>"]) simp
    show "\<forall>x\<in>set (usdtable st). usd_id x \<le> usd_id (last (usdtable st))"
      using last_greatest [OF sorted] by blast
  }
  assume "length subs \<le> 2 ^ 64"
  from writes_window [OF assms this]
  show "map (\<lambda>x. (usd_owner x, usd_value x, usd_timestamp x)) (usdtable st)
      = take 21 (rev (map (\<lambda>(h, owner, val). (owner, val, current_time h)) subs))"
    by blast
qed

text \<open>
  Claim C4, amended. For the first \<open>2^64\<close> observations accepted into a window that
  started empty, the keys are strictly decreasing in insertion order: observation number
  \<open>k\<close> gets the key \<open>2^64 - k\<close> and becomes the first row. The first observation
  gets \<open>2^64 - 1\<close>; each later one gets the key of the newest observation minus one,
  which is below every key of the window.
\<close>

theorem sequence_keys:
  assumes "usdtable st0 = []" and "writes subs st0 = Inr st"
      and "write_action h owner val st = Inr st'" and "length subs < 2 ^ 64"
  shows "\<exists>new rest. usdtable st' = new # rest
           \<and> usd_owner new = owner \<and> usd_value new = val \<and> usd_timestamp new = current_time h
           \<and> unat (usd_id new) = 2 ^ 64 - Suc (length subs)
           \<and> (subs = [] \<longrightarrow> usd_id new = - 1)
           \<and> (subs \<noteq> [] \<longrightarrow> usd_id new = usd_id (hd (usdtable st)) - 1
                              \<and> usd_id new < usd_id (hd (usdtable st)))
           \<and> (\<forall>x\<in>set (usdtable st). usd_id new < usd_id x)"
proof -
  let ?n = "length subs"
  let ?e = "\<lambda>x. (usd_owner x, usd_value x, usd_timestamp x)"
  have w: "writes (subs @ [(h, owner, val)]) st0 = Inr st'"
    using assms(2,3) by (simp add: writes_append and_then_def split: sum.splits)
  have "length (subs @ [(h, owner, val)]) \<le> 2 ^ 64" using assms(4) by simp
  from writes_window [OF assms(1) w this]
  have ids': "map usd_id (usdtable st') = map (\<lambda>j. of_nat j - of_nat (Suc ?n)) [0..<Suc (min ?n 20)]"
    and ent': "map ?e (usdtable st') = (owner, val, current_time h)
        # take 20 (rev (map (\<lambda>(h, owner, val). (owner, val, current_time h)) subs))"
    by auto
  from ent' obtain new rest where nr: "usdtable st' = new # rest" by (cases "usdtable st'") auto
  with ent' have e: "usd_owner new = owner" "usd_value new = val" "usd_timestamp new = current_time h"
    by auto
  from ids' nr have id: "usd_id new = - of_nat (Suc ?n)"
    by (simp add: upt_conv_Cons del: upt_Suc)
  have "0 < Suc ?n" "Suc ?n \<le> 2 ^ 64" using assms(4) by simp_all
  from unat_neg_of_nat [OF this] id have u: "unat (usd_id new) = 2 ^ 64 - Suc ?n" by simp
  have first: "usd_id new = - 1" if "subs = []" using id that by simp
  have "window_inv (usdtable st0)" using assms(1) by (simp add: window_inv_def)
  from window_inv_writes [OF assms(2) this]
  have sorted: "sorted_wrt (<) (map usd_id (usdtable st))" and len: "length (usdtable st) = min ?n 21"
    using assms(1) by (auto simp: window_inv_def)
  have later: "usd_id new = usd_id (hd (usdtable st)) - 1 \<and> usd_id new < usd_id (hd (usdtable st))"
    if ne: "subs \<noteq> []"
  proof -
    from assms(4) have "?n \<le> 2 ^ 64" by simp
    from writes_window [OF assms(1,2) this]
    have ids: "map usd_id (usdtable st) = map (\<lambda>j. of_nat j - of_nat ?n) [0..<min ?n 21]"
      by blast
    from ne len have t: "usdtable st \<noteq> []" by (auto simp: min_def split: if_splits)
    have "hd (map usd_id (usdtable st)) = of_nat 0 - of_nat ?n"
      unfolding ids using ne by (simp add: hd_map upt_conv_Cons del: upt_Suc)
    with t have hd: "usd_id (hd (usdtable st)) = - of_nat ?n" by (simp add: hd_map)
    have "(of_nat ?n :: uint64_t) \<noteq> 0" using ne assms(4) by (intro of_nat_64_nonzero) auto
    with hd have "usd_id (hd (usdtable st)) \<noteq> 0" by simp
    from word_pred_less [OF this]
    have less: "usd_id (hd (usdtable st)) - 1 < usd_id (hd (usdtable st))" .
    have eq: "usd_id new = usd_id (hd (usdtable st)) - 1" using hd id by simp
    show ?thesis by (intro conjI) (rule eq, simp only: eq less)
  qed
  have below: "\<forall>x\<in>set (usdtable st). usd_id new < usd_id x"
  proof
    fix x assume x: "x \<in> set (usdtable st)"
    then have "usdtable st \<noteq> []" by auto
    with len have "subs \<noteq> []" by auto
    from later [OF this] have "usd_id new < usd_id (hd (usdtable st))" by blast
    with hd_least [OF sorted x] show "usd_id new < usd_id x" by (rule less_le_trans [rotated])
  qed
  from nr e u first later below show ?thesis by blast
qed

text \<open>
  Claim C10. Into a window that is not empty, an accepted observation gets the key
  \<open>latest - 1\<close> in 64-bit arithmetic, \<open>latest\<close> being the first row. When that key is
  0 the new key is \<open>2^64 - 1\<close>, and the new key is below the key of \<open>latest\<close> exactly
  when the latter is not 0.
\<close>

theorem sequence_key_wraps:
  assumes "usdtable st = latest # rest"
      and "update_eosusd_oracle h owner val st = Inr st'"
  shows "(\<exists>new. find_row usd_id (usd_id latest - 1) (usdtable st') = Some new
            \<and> usd_owner new = owner \<and> usd_value new = val
            \<and> usd_timestamp new = current_time h)
       \<and> (usd_id latest = 0 \<longrightarrow> unat (usd_id latest - 1) = 2 ^ 64 - 1)
       \<and> (usd_id latest - 1 < usd_id latest \<longleftrightarrow> usd_id latest \<noteq> 0)"
proof (intro conjI)
  let ?k = "usd_id latest - 1"
  show "\<exists>new. find_row usd_id ?k (usdtable st') = Some new
            \<and> usd_owner new = owner \<and> usd_value new = val
            \<and> usd_timestamp new = current_time h"
  proof (cases "length (usdtable st) + 1 > unat datapoints_count")
    case True
    with assms obtain ins avg where
      ins: "emplace_row usd_id
              \<lparr>usd_id = ?k, usd_owner = owner, usd_value = val,
               usd_average = 0, usd_timestamp = current_time h\<rparr> (butlast (usdtable st)) = Some ins"
      and st': "st' = st\<lparr>usdtable := modify_row usd_id ?k (\<lambda>s. s\<lparr>usd_average := avg div 9\<rparr>) ins\<rparr>"
      by (auto simp: update_eosusd_oracle_def Let_def split: option.splits)
    have "find_row usd_id ?k (modify_row usd_id ?k (\<lambda>s. s\<lparr>usd_average := avg div 9\<rparr>) ins)
        = map_option (\<lambda>s. s\<lparr>usd_average := avg div 9\<rparr>) (find_row usd_id ?k ins)"
      by (subst find_row_modify_row) simp_all
    with find_row_emplace_row [OF ins, of ?k] st' show ?thesis by simp
  next
    case False
    with assms obtain ins where
      ins: "emplace_row usd_id
              \<lparr>usd_id = ?k, usd_owner = owner, usd_value = val,
               usd_average = val, usd_timestamp = current_time h\<rparr> (usdtable st) = Some ins"
      and st': "st' = st\<lparr>usdtable := ins\<rparr>"
      by (auto simp: update_eosusd_oracle_def Let_def split: option.splits)
    with find_row_emplace_row [OF ins, of ?k] show ?thesis by simp
  qed
  show "usd_id latest = 0 \<longrightarrow> unat ?k = 2 ^ 64 - 1"
    by (simp add: unsigned_minus_1_eq_mask mask_eq_exp_minus_1)
  show "?k < usd_id latest \<longleftrightarrow> usd_id latest \<noteq> 0"
    using word_pred_less [of "usd_id latest"] by auto
qed


lemma sample_writes_accepted: "writes sample_writes no_tables = Inr sample_tables"
  by (simp add: sample_writes_def sample_host_def window_from_def write_action_def and_then_def
      require_auth_def eosio_assert_def val_min_def val_max_def check_oracle_def
      get_active_producers_def producers_loop.simps check_last_push_def one_minute_def
      modify_row_def update_eosusd_oracle_def datapoints_count_def Let_def
      sample_tables_def no_tables_def)

lemma sample_first_write:
  "write_action (sample_host 60000000) 5 5320 no_tables
   = Inr \<lparr>usdtable = [\<lparr>usd_id = - 1, usd_owner = 5, usd_value = 5320,
                        usd_average = 5320, usd_timestamp = 60000000\<rparr>],
          statstable = [\<lparr>stats_owner = 5, stats_timestamp = 60000000, stats_count = 0\<rparr>],
          oraclestable = []\<rparr>"
  by (simp add: sample_host_def write_action_def and_then_def
      require_auth_def eosio_assert_def val_min_def val_max_def check_oracle_def
      get_active_producers_def producers_loop.simps check_last_push_def
      update_eosusd_oracle_def no_tables_def)

lemma sample_next_write:
  "write_action (sample_host 1320000000) 5 5100 sample_tables
   = Inr \<lparr>usdtable =
            \<lparr>usd_id = 18446744073709551594, usd_owner = 5, usd_value = 5100,
             usd_average = 5153, usd_timestamp = 1320000000\<rparr>
            # butlast (window_from 18446744073709551595),
          statstable = [\<lparr>stats_owner = 5, stats_timestamp = 1320000000, stats_count = 21\<rparr>],
          oraclestable = []\<rparr>"
  by (simp add: sample_host_def window_from_def write_action_def and_then_def
      require_auth_def eosio_assert_def val_min_def val_max_def check_oracle_def
      get_active_producers_def producers_loop.simps check_last_push_def one_minute_def
      modify_row_def update_eosusd_oracle_def datapoints_count_def Let_def
      sample_tables_def trimmed_sum_eq)

lemma wrapped_update:
  "update_eosusd_oracle (sample_host 1320000000) 5 5100
     \<lparr>usdtable = window_from 0, statstable = [], oraclestable = []\<rparr>
   = Inr \<lparr>usdtable = butlast (window_from 0)
            @ [\<lparr>usd_id = 18446744073709551615, usd_owner = 5, usd_value = 5100,
                usd_average = 5153, usd_timestamp = 1320000000\<rparr>],
          statstable = [], oraclestable = []\<rparr>"
  by (simp add: sample_host_def window_from_def update_eosusd_oracle_def datapoints_count_def
      modify_row_def Let_def trimmed_sum_eq)

text \<open>
  Claim C4 as it is written has no bound on the number of observations. With the keys 0
  to 20 in the window, the newest key is 0 and the next accepted observation gets
  \<open>2^64 - 1\<close>, which is not below it.
\<close>

theorem sequence_keys_wrap_counterexample:
  "write_action (sample_host 1320000000) 5 5100
     \<lparr>usdtable = window_from 0, statstable = [], oraclestable = []\<rparr>
   = Inr \<lparr>usdtable = butlast (window_from 0)
            @ [\<lparr>usd_id = 18446744073709551615, usd_owner = 5, usd_value = 5100,
                usd_average = 5153, usd_timestamp = 1320000000\<rparr>],
          statstable = [\<lparr>stats_owner = 5, stats_timestamp = 1320000000, stats_count = 0\<rparr>],
          oraclestable = []\<rparr>
   \<and> usd_id (hd (window_from 0)) = 0
   \<and> \<not> (18446744073709551615 :: uint64_t) < usd_id (hd (window_from 0))"
  by (simp add: sample_host_def window_from_def write_action_def and_then_def
      require_auth_def eosio_assert_def val_min_def val_max_def check_oracle_def
      get_active_producers_def producers_loop.simps check_last_push_def
      modify_row_def update_eosusd_oracle_def datapoints_count_def Let_def trimmed_sum_eq)


text \<open>
  Claim C2 as it is written calls the row that goes the oldest for every sequence. In
  the window with the keys 0 to 20, which is the window after \<open>2^64\<close> accepted
  submissions, the next submission gets the key \<open>2^64 - 1\<close> and becomes the last row;
  the submission after it removes that row, the newest one, and the oldest row, with the
  key 19, stays.
\<close>

theorem window_evicts_newest_counterexample:
  "write_action (sample_host 1320000000) 5 5100
     \<lparr>usdtable = window_from 0, statstable = [], oraclestable = []\<rparr>
   = Inr \<lparr>usdtable = butlast (window_from 0)
            @ [\<lparr>usd_id = 18446744073709551615, usd_owner = 5, usd_value = 5100,
                usd_average = 5153, usd_timestamp = 1320000000\<rparr>],
          statstable = [\<lparr>stats_owner = 5, stats_timestamp = 1320000000, stats_count = 0\<rparr>],
          oraclestable = []\<rparr>
   \<and> write_action (sample_host 1380000000) 5 5200
     \<lparr>usdtable = butlast (window_from 0)
            @ [\<lparr>usd_id = 18446744073709551615, usd_owner = 5, usd_value = 5100,
                usd_average = 5153, usd_timestamp = 1320000000\<rparr>],
      statstable = [\<lparr>stats_owner = 5, stats_timestamp = 1320000000, stats_count = 0\<rparr>],
      oraclestable = []\<rparr>
   = Inr \<lparr>usdtable = butlast (window_from 0)
            @ [\<lparr>usd_id = 18446744073709551615, usd_owner = 5, usd_value = 5200,
                usd_average = 5164, usd_timestamp = 1380000000\<rparr>],
          statstable = [\<lparr>stats_owner = 5, stats_timestamp = 1380000000, stats_count = 1\<rparr>],
          oraclestable = []\<rparr>
   \<and> last (butlast (window_from 0))
       = \<lparr>usd_id = 19, usd_owner = 5, usd_value = 5040, usd_average = 5040,
          usd_timestamp = 120000000\<rparr>"
  by (simp add: sample_host_def window_from_def write_action_def and_then_def
      require_auth_def eosio_assert_def val_min_def val_max_def check_oracle_def
      get_active_producers_def producers_loop.simps check_last_push_def one_minute_def
      modify_row_def update_eosusd_oracle_def datapoints_count_def Let_def trimmed_sum_eq)

theorem window_capacity_witness:
  "usdtable no_tables = []
   \<and> writes sample_writes no_tables = Inr sample_tables
   \<and> length (usdtable sample_tables) = 21
   \<and> write_action (sample_host 1320000000) 5 5100 sample_tables
       = Inr \<lparr>usdtable =
                \<lparr>usd_id = 18446744073709551594, usd_owner = 5, usd_value = 5100,
                 usd_average = 5153, usd_timestamp = 1320000000\<rparr>
                # butlast (window_from 18446744073709551595),
              statstable = [\<lparr>stats_owner = 5, stats_timestamp = 1320000000, stats_count = 21\<rparr>],
              oraclestable = []\<rparr>
   \<and> (\<exists>new. usd_owner new = 5 \<and> usd_value new = 5100
        \<and> emplace_row usd_id new (butlast (usdtable sample_tables))
            = Some (\<lparr>usd_id = 18446744073709551594, usd_owner = 5, usd_value = 5100,
                      usd_average = 5153, usd_timestamp = 1320000000\<rparr>
                    # butlast (window_from 18446744073709551595)))
   \<and> length sample_writes \<le> 2 ^ 64
   \<and> map (\<lambda>x. (usd_owner x, usd_value x, usd_timestamp x)) (usdtable sample_tables)
       = take 21 (rev (map (\<lambda>(h, owner, val). (owner, val, current_time h)) sample_writes))"
proof -
  have e: "usdtable no_tables = []" by (simp add: no_tables_def)
  have l: "length (usdtable sample_tables) = 21"
    by (simp add: sample_tables_def window_from_def)
  have n: "length sample_writes \<le> 2 ^ 64" by (simp add: sample_writes_def)
  note c = window_capacity [OF e sample_writes_accepted]
  from c l sample_next_write
  have "\<exists>new. usd_owner new = 5 \<and> usd_value new = 5100
        \<and> emplace_row usd_id new (butlast (usdtable sample_tables))
            = Some (usdtable \<lparr>usdtable =
                \<lparr>usd_id = 18446744073709551594, usd_owner = 5, usd_value = 5100,
                 usd_average = 5153, usd_timestamp = 1320000000\<rparr>
                # butlast (window_from 18446744073709551595),
              statstable = [\<lparr>stats_owner = 5, stats_timestamp = 1320000000, stats_count = 21\<rparr>],
              oraclestable = []\<rparr>)"
    by blast
  moreover from c n
  have "map (\<lambda>x. (usd_owner x, usd_value x, usd_timestamp x)) (usdtable sample_tables)
       = take 21 (rev (map (\<lambda>(h, owner, val). (owner, val, current_time h)) sample_writes))"
    by blast
  ultimately show ?thesis
    using e l n sample_writes_accepted sample_next_write by simp
qed

theorem sequence_keys_witness:
  "usdtable no_tables = []
   \<and> writes [] no_tables = Inr no_tables
   \<and> write_action (sample_host 60000000) 5 5320 no_tables
       = Inr \<lparr>usdtable = [\<lparr>usd_id = - 1, usd_owner = 5, usd_value = 5320,
                            usd_average = 5320, usd_timestamp = 60000000\<rparr>],
              statstable = [\<lparr>stats_owner = 5, stats_timestamp = 60000000, stats_count = 0\<rparr>],
              oraclestable = []\<rparr>
   \<and> (\<exists>new rest. [\<lparr>usd_id = - 1, usd_owner = 5, usd_value = 5320,
                        usd_average = 5320, usd_timestamp = 60000000\<rparr>] = new # rest
        \<and> unat (usd_id new) = 2 ^ 64 - Suc 0 \<and> usd_id new = - 1)
   \<and> writes sample_writes no_tables = Inr sample_tables
   \<and> length sample_writes < 2 ^ 64
   \<and> sample_writes \<noteq> []
   \<and> (\<exists>new rest st'. write_action (sample_host 1320000000) 5 5100 sample_tables = Inr st'
        \<and> usdtable st' = new # rest
        \<and> usd_owner new = 5 \<and> usd_value new = 5100
        \<and> unat (usd_id new) = 2 ^ 64 - Suc (length sample_writes)
        \<and> usd_id new = usd_id (hd (usdtable sample_tables)) - 1
        \<and> usd_id new < usd_id (hd (usdtable sample_tables)))"
proof -
  have e: "usdtable no_tables = []" by (simp add: no_tables_def)
  have w0: "writes [] no_tables = Inr no_tables" by simp
  have n0: "length ([] :: (host \<times> account_name \<times> uint64_t) list) < 2 ^ 64" by simp
  have n: "length sample_writes < 2 ^ 64" by (simp add: sample_writes_def)
  have ne: "sample_writes \<noteq> []" by (simp add: sample_writes_def)
  from sequence_keys [OF e w0 sample_first_write n0]
  have first: "\<exists>new rest. [\<lparr>usd_id = - 1, usd_owner = 5, usd_value = 5320,
                        usd_average = 5320, usd_timestamp = 60000000\<rparr>] = new # rest
        \<and> unat (usd_id new) = 2 ^ 64 - Suc 0 \<and> usd_id new = - 1"
    by (elim exE conjE) simp
  from sequence_keys [OF e sample_writes_accepted sample_next_write n] ne
  have "\<exists>new rest st'. write_action (sample_host 1320000000) 5 5100 sample_tables = Inr st'
        \<and> usdtable st' = new # rest
        \<and> usd_owner new = 5 \<and> usd_value new = 5100
        \<and> unat (usd_id new) = 2 ^ 64 - Suc (length sample_writes)
        \<and> usd_id new = usd_id (hd (usdtable sample_tables)) - 1
        \<and> usd_id new < usd_id (hd (usdtable sample_tables))"
    using sample_next_write by auto
  with first show ?thesis
    using e w0 n ne sample_first_write sample_writes_accepted by blast
qed

theorem sequence_key_wraps_witness:
  "usdtable \<lparr>usdtable = window_from 0, statstable = [], oraclestable = []\<rparr>
     = hd (window_from 0) # tl (window_from 0)
   \<and> update_eosusd_oracle (sample_host 1320000000) 5 5100
        \<lparr>usdtable = window_from 0, statstable = [], oraclestable = []\<rparr>
       = Inr \<lparr>usdtable = butlast (window_from 0)
                @ [\<lparr>usd_id = 18446744073709551615, usd_owner = 5, usd_value = 5100,
                    usd_average = 5153, usd_timestamp = 1320000000\<rparr>],
              statstable = [], oraclestable = []\<rparr>
   \<and> usd_id (hd (window_from 0)) = 0
   \<and> (\<exists>new. find_row usd_id (usd_id (hd (window_from 0)) - 1)
                 (butlast (window_from 0)
                  @ [\<lparr>usd_id = 18446744073709551615, usd_owner = 5, usd_value = 5100,
                      usd_average = 5153, usd_timestamp = 1320000000\<rparr>]) = Some new
          \<and> usd_owner new = 5 \<and> usd_value new = 5100)
   \<and> unat (usd_id (hd (window_from 0)) - 1) = 2 ^ 64 - 1
   \<and> \<not> usd_id (hd (window_from 0)) - 1 < usd_id (hd (window_from 0))"
proof -
  have t: "usdtable \<lparr>usdtable = window_from 0, statstable = [], oraclestable = []\<rparr>
     = hd (window_from 0) # tl (window_from 0)"
    by (simp add: window_from_def)
  have z: "usd_id (hd (window_from 0)) = 0" by (simp add: window_from_def)
  from sequence_key_wraps [OF t wrapped_update] z
  have "(\<exists>new. find_row usd_id (usd_id (hd (window_from 0)) - 1)
                 (butlast (window_from 0)
                  @ [\<lparr>usd_id = 18446744073709551615, usd_owner = 5, usd_value = 5100,
                      usd_average = 5153, usd_timestamp = 1320000000\<rparr>]) = Some new
          \<and> usd_owner new = 5 \<and> usd_value new = 5100)
       \<and> unat (usd_id (hd (window_from 0)) - 1) = 2 ^ 64 - 1
       \<and> \<not> usd_id (hd (window_from 0)) - 1 < usd_id (hd (window_from 0))"
    by auto
  with t z wrapped_update show ?thesis by blast
qed

end
